theory Spec2Isabelle
  imports Main
begin

section \<open>Python values used by the solver\<close>

text \<open>
  The three source files (\<^verbatim>\<open>code.py\<close>, \<^verbatim>\<open>codeNew.py\<close>, \<^verbatim>\<open>codeFinal.py\<close>) each define
  \<^verbatim>\<open>edmonds_karp(capacity, source, sink)\<close>.  Tables are lists of lists of Python integers,
  node indices are Python integers.  An exception is the value \<open>Inl e\<close>; a loop that
  never ends is the value \<open>None\<close>.

  The solver is embedded twice.  First on values: a table is an \<open>int list list\<close>, and an
  assignment to a cell gives a new table.  Then on a store of list objects, where an
  assignment to a cell changes the row object; that embedding is proved to compute what
  the first one does.
\<close>

datatype error =
    IndexError
  | TypeError
    \<comment> \<open>an object of the wrong kind at an address of the store\<close>
  | FloatResidual
    \<comment> \<open>\<^verbatim>\<open>residual[u][v] -= float('inf')\<close> would store a float; integer tables cannot hold it\<close>

datatype pynum = PyInt int | PyInf
  \<comment> \<open>a Python integer, or \<^verbatim>\<open>float('inf')\<close>\<close>

text \<open>\<^verbatim>\<open>min(path_flow, x)\<close> for an integer \<open>x\<close>, and \<^verbatim>\<open>max_flow + path_flow\<close>.\<close>

fun py_min :: "pynum \<Rightarrow> int \<Rightarrow> pynum" where
  "py_min PyInf x = PyInt x"
| "py_min (PyInt a) x = PyInt (min a x)"

fun py_add :: "pynum \<Rightarrow> pynum \<Rightarrow> pynum" where
  "py_add (PyInt a) (PyInt b) = PyInt (a + b)"
| "py_add _ _ = PyInf"

text \<open>Python list indexing: a negative index counts from the end, anything else raises.\<close>

definition py_index :: "nat \<Rightarrow> int \<Rightarrow> nat option" where
  "py_index n i =
     (if 0 \<le> i \<and> i < int n then Some (nat i)
      else if - int n \<le> i \<and> i < 0 then Some (nat (int n + i))
      else None)"

definition getitem :: "'a list \<Rightarrow> int \<Rightarrow> error + 'a" where
  "getitem xs i = (case py_index (length xs) i of None \<Rightarrow> Inl IndexError | Some k \<Rightarrow> Inr (xs ! k))"

definition setitem :: "'a list \<Rightarrow> int \<Rightarrow> 'a \<Rightarrow> error + 'a list" where
  "setitem xs i x =
     (case py_index (length xs) i of None \<Rightarrow> Inl IndexError | Some k \<Rightarrow> Inr (xs[k := x]))"

text \<open>\<^verbatim>\<open>table[u][v]\<close> and \<^verbatim>\<open>table[u][v] = x\<close>; the row is looked up first.\<close>

definition getitem2 :: "'a list list \<Rightarrow> int \<Rightarrow> int \<Rightarrow> error + 'a" where
  "getitem2 t u v = (case getitem t u of Inl e \<Rightarrow> Inl e | Inr row \<Rightarrow> getitem row v)"

definition setitem2 :: "'a list list \<Rightarrow> int \<Rightarrow> int \<Rightarrow> 'a \<Rightarrow> error + 'a list list" where
  "setitem2 t u v x =
     (case getitem t u of Inl e \<Rightarrow> Inl e
      | Inr row \<Rightarrow> (case setitem row v x of Inl e \<Rightarrow> Inl e | Inr row' \<Rightarrow> setitem t u row'))"

section \<open>The solver of \<^verbatim>\<open>code.py\<close>\<close>

text \<open>
  \<^verbatim>\<open>code.py\<close>, lines 26 to 31: the loop \<^verbatim>\<open>for v in range(n)\<close> inside \<^verbatim>\<open>bfs\<close>, for the node
  \<open>u\<close> just taken from the queue.  The Boolean is \<open>True\<close> when the loop left through
  \<^verbatim>\<open>return True\<close>.
\<close>

fun bfs_scan ::
  "int list list \<Rightarrow> int \<Rightarrow> int \<Rightarrow> nat list \<Rightarrow> int list \<Rightarrow> int list
     \<Rightarrow> error + (bool \<times> int list \<times> int list)" where
  "bfs_scan residual sink u [] parent queue = Inr (False, parent, queue)"
| "bfs_scan residual sink u (v # vs) parent queue =
     (case getitem parent (int v) of Inl e \<Rightarrow> Inl e
      | Inr pv \<Rightarrow>
          if pv = - 1 then
            (case getitem2 residual u (int v) of Inl e \<Rightarrow> Inl e
             | Inr r \<Rightarrow>
                 if 0 < r then
                   (case setitem parent (int v) u of Inl e \<Rightarrow> Inl e
                    | Inr parent' \<Rightarrow>
                        if int v = sink then Inr (True, parent', queue @ [int v])
                        else bfs_scan residual sink u vs parent' (queue @ [int v]))
                 else bfs_scan residual sink u vs parent queue)
          else bfs_scan residual sink u vs parent queue)"

text \<open>
  Lines 24 to 32: the \<^verbatim>\<open>while queue\<close> loop of \<^verbatim>\<open>bfs\<close>.  It ends on every input: a marked
  node is never queued again, and only the first element of the queue can be negative.
\<close>

lemma count_list_update:
  "k < length xs \<Longrightarrow> xs ! k = a \<Longrightarrow> b \<noteq> a \<Longrightarrow> Suc (count_list (xs[k := b]) a) = count_list xs a"
proof (induction xs arbitrary: k)
  case Nil
  then show ?case by simp
next
  case (Cons x xs)
  then show ?case by (cases k) auto
qed

lemma py_index_nat [simp]: "py_index n (int v) = (if v < n then Some v else None)"
  by (simp add: py_index_def)

lemma getitem_nat: "getitem xs (int v) = (if v < length xs then Inr (xs ! v) else Inl IndexError)"
  by (simp add: getitem_def)

lemma setitem_nat: "setitem xs (int v) x = (if v < length xs then Inr (xs[v := x]) else Inl IndexError)"
  by (simp add: setitem_def)

lemma bfs_scan_measure:
  "bfs_scan residual sink u vs parent queue = Inr (found, parent', queue') \<Longrightarrow>
     count_list queue' (- 1) = count_list queue (- 1) \<and>
     (u \<noteq> - 1 \<longrightarrow> 2 * count_list parent' (- 1) + length queue'
                     \<le> 2 * count_list parent (- 1) + length queue)"
proof (induction vs arbitrary: parent queue)
  case Nil
  then show ?case by simp
next
  case (Cons v vs)
  show ?case
  proof (cases "v < length parent \<and> parent ! v = - 1 \<and> (\<exists>r. getitem2 residual u (int v) = Inr r \<and> 0 < r)")
    case True
    then obtain r where r: "getitem2 residual u (int v) = Inr r" "0 < r" by blast
    let ?p = "parent[v := u]"
    have cnt: "u \<noteq> - 1 \<Longrightarrow> Suc (count_list ?p (- 1)) = count_list parent (- 1)"
      using True by (intro count_list_update) auto
    show ?thesis
    proof (cases "int v = sink")
      case True
      with Cons.prems \<open>v < length parent \<and> _\<close> r cnt show ?thesis
        by (auto simp: getitem_nat setitem_nat)
    next
      case False
      with Cons.prems \<open>v < length parent \<and> _\<close> r
      have "bfs_scan residual sink u vs ?p (queue @ [int v]) = Inr (found, parent', queue')"
        by (simp add: getitem_nat setitem_nat)
      from Cons.IH[OF this] cnt show ?thesis by auto
    qed
  next
    case False
    with Cons.prems have "bfs_scan residual sink u vs parent queue = Inr (found, parent', queue')"
      by (auto simp: getitem_nat setitem_nat split: if_splits sum.splits)
    from Cons.IH[OF this] show ?thesis .
  qed
qed

function bfs_loop ::
  "nat \<Rightarrow> int list list \<Rightarrow> int \<Rightarrow> int list \<Rightarrow> int list \<Rightarrow> error + (bool \<times> int list)" where
  "bfs_loop n residual sink parent [] = Inr (False, parent)"
| "bfs_loop n residual sink parent (u # queue) =
     (case bfs_scan residual sink u [0..<n] parent queue of Inl e \<Rightarrow> Inl e
      | Inr (found, parent', queue') \<Rightarrow>
          if found then Inr (True, parent') else bfs_loop n residual sink parent' queue')"
  by pat_completeness auto
termination
proof (relation "inv_image (less_than <*lex*> less_than)
    (\<lambda>(n :: nat, residual :: int list list, sink :: int, parent :: int list, queue :: int list).
       (count_list queue (- 1), 2 * count_list parent (- 1) + length queue))", goal_cases)
  case 1
  show ?case by (intro wf_inv_image wf_lex_prod wf_less_than)
next
  case (2 n residual sink parent u queue x2 x y x1 x2a)
  then have "bfs_scan residual sink u [0..<n] parent queue = Inr (False, x1, x2a)" by simp
  from bfs_scan_measure[OF this] show ?case by (cases "u = - 1") auto
qed

text \<open>
  Lines 18 to 23: \<^verbatim>\<open>bfs\<close> resets \<^verbatim>\<open>parent\<close> to \<open>n\<close> times \<open>-1\<close>, puts the source in the queue and
  marks it.  It returns its Boolean and the \<^verbatim>\<open>parent\<close> list it leaves to the main loop.
\<close>

definition bfs :: "nat \<Rightarrow> int list list \<Rightarrow> int \<Rightarrow> int \<Rightarrow> error + (bool \<times> int list)" where
  "bfs n residual source sink =
     (case setitem (replicate n (- 1)) source source of Inl e \<Rightarrow> Inl e
      | Inr parent \<Rightarrow> bfs_loop n residual sink parent [source])"

text \<open>
  Lines 37 to 42: the first walk from the sink back to the source, \<^verbatim>\<open>while v != source\<close>.
  It is called with \<open>v = sink\<close> and \<open>path_flow = float('inf')\<close>.
\<close>

partial_function (option) find_bottleneck ::
  "int list list \<Rightarrow> int list \<Rightarrow> int \<Rightarrow> int \<Rightarrow> pynum \<Rightarrow> (error + pynum) option" where
  "find_bottleneck residual parent source v path_flow =
     (if v \<noteq> source then
        (case getitem parent v of Inl e \<Rightarrow> Some (Inl e)
         | Inr u \<Rightarrow>
             (case getitem2 residual u v of Inl e \<Rightarrow> Some (Inl e)
              | Inr r \<Rightarrow> find_bottleneck residual parent source u (py_min path_flow r)))
      else Some (Inr path_flow))"

text \<open>Lines 48 and 49: \<^verbatim>\<open>residual[u][v] -= path_flow\<close> and \<^verbatim>\<open>residual[u][v] += path_flow\<close>.\<close>

definition isub_at :: "int list list \<Rightarrow> int \<Rightarrow> int \<Rightarrow> pynum \<Rightarrow> error + int list list" where
  "isub_at residual u v path_flow =
     (case getitem2 residual u v of Inl e \<Rightarrow> Inl e
      | Inr x \<Rightarrow>
          (case path_flow of PyInf \<Rightarrow> Inl FloatResidual
           | PyInt pf \<Rightarrow> setitem2 residual u v (x - pf)))"

definition iadd_at :: "int list list \<Rightarrow> int \<Rightarrow> int \<Rightarrow> pynum \<Rightarrow> error + int list list" where
  "iadd_at residual u v path_flow =
     (case getitem2 residual u v of Inl e \<Rightarrow> Inl e
      | Inr x \<Rightarrow>
          (case path_flow of PyInf \<Rightarrow> Inl FloatResidual
           | PyInt pf \<Rightarrow> setitem2 residual u v (x + pf)))"

text \<open>Lines 45 to 50: the second walk, called with \<open>v = sink\<close>.\<close>

partial_function (option) update_residual ::
  "int list \<Rightarrow> int \<Rightarrow> pynum \<Rightarrow> int \<Rightarrow> int list list \<Rightarrow> (error + int list list) option" where
  "update_residual parent source path_flow v residual =
     (if v \<noteq> source then
        (case getitem parent v of Inl e \<Rightarrow> Some (Inl e)
         | Inr u \<Rightarrow>
             (case isub_at residual u v path_flow of Inl e \<Rightarrow> Some (Inl e)
              | Inr residual1 \<Rightarrow>
                  (case iadd_at residual1 v u path_flow of Inl e \<Rightarrow> Some (Inl e)
                   | Inr residual2 \<Rightarrow> update_residual parent source path_flow u residual2)))
      else Some (Inr residual))"

text \<open>
  Lines 36 to 50, the body of the main loop without its last statement: the new table and
  \<^verbatim>\<open>path_flow\<close>.
\<close>

definition augment ::
  "int list list \<Rightarrow> int list \<Rightarrow> int \<Rightarrow> int \<Rightarrow> (error + (int list list \<times> pynum)) option" where
  "augment residual parent source sink =
     (case find_bottleneck residual parent source sink PyInf of None \<Rightarrow> None
      | Some (Inl e) \<Rightarrow> Some (Inl e)
      | Some (Inr path_flow) \<Rightarrow>
          (case update_residual parent source path_flow sink residual of None \<Rightarrow> None
           | Some (Inl e) \<Rightarrow> Some (Inl e)
           | Some (Inr residual') \<Rightarrow> Some (Inr (residual', path_flow))))"

text \<open>Lines 34 to 54: \<^verbatim>\<open>while bfs()\<close>, \<^verbatim>\<open>max_flow += path_flow\<close> and the \<^verbatim>\<open>return\<close>.\<close>

partial_function (option) augment_loop ::
  "nat \<Rightarrow> int \<Rightarrow> int \<Rightarrow> int list list \<Rightarrow> pynum \<Rightarrow> (error + (int list list \<times> pynum)) option" where
  "augment_loop n source sink residual max_flow =
     (case bfs n residual source sink of Inl e \<Rightarrow> Some (Inl e)
      | Inr (found, parent) \<Rightarrow>
          if found then
            (case augment residual parent source sink of None \<Rightarrow> None
             | Some (Inl e) \<Rightarrow> Some (Inl e)
             | Some (Inr (residual', path_flow)) \<Rightarrow>
                 augment_loop n source sink residual' (py_add max_flow path_flow))
          else Some (Inr (residual, max_flow)))"

text \<open>
  Lines 13 to 16 and 34: \<open>n\<close> is the number of rows, the residual table starts as a copy
  of the capacity table, \<^verbatim>\<open>max_flow\<close> as 0.
\<close>

definition edmonds_karp ::
  "int list list \<Rightarrow> int \<Rightarrow> int \<Rightarrow> (error + (int list list \<times> pynum)) option" where
  "edmonds_karp capacity source sink =
     augment_loop (length capacity) source sink capacity (PyInt 0)"

declare find_bottleneck.simps [code]
declare update_residual.simps [code]
declare augment_loop.simps [code]

text \<open>
  \<^verbatim>\<open>path_flow\<close> is still \<^verbatim>\<open>float('inf')\<close> after the first walk only when that walk made no step;
  the second walk then makes none either, so no float is ever stored in the table.
\<close>

lemma getitem_error: "getitem xs i = Inl e \<Longrightarrow> e = IndexError"
  by (auto simp: getitem_def split: option.splits)

lemma getitem2_error: "getitem2 t u v = Inl e \<Longrightarrow> e = IndexError"
  by (auto simp: getitem2_def split: sum.splits dest: getitem_error)

lemma setitem2_error: "setitem2 t u v x = Inl e \<Longrightarrow> e = IndexError"
  by (auto simp: setitem2_def setitem_def split: sum.splits option.splits dest: getitem_error)

lemma find_bottleneck_result:
  assumes "find_bottleneck R p s v a = Some y"
  shows "(\<forall>e. y = Inl e \<longrightarrow> e = IndexError) \<and>
         (y = Inr PyInf \<longrightarrow> a = PyInf \<and> v = s)"
proof (rule find_bottleneck.raw_induct[OF _ assms], goal_cases)
  case (1 f R p s v a y)
  show ?case
  proof (cases "v = s")
    case True
    with 1(2) show ?thesis by auto
  next
    case False
    show ?thesis
    proof (cases "getitem p v")
      case (Inl e)
      with False 1(2) getitem_error[OF Inl] show ?thesis by auto
    next
      case u: (Inr u)
      show ?thesis
      proof (cases "getitem2 R u v")
        case (Inl e)
        with False u 1(2) getitem2_error[OF Inl] show ?thesis by auto
      next
        case (Inr r)
        with False u 1(2) have "f R p s u (py_min a r) = Some y" by simp
        from 1(1)[OF this] show ?thesis by (cases a) auto
      qed
    qed
  qed
qed

lemma update_residual_no_float:
  assumes "update_residual p s (PyInt d) v R = Some y"
  shows "\<forall>e. y = Inl e \<longrightarrow> e = IndexError"
proof -
  have "pf = PyInt d \<longrightarrow> (\<forall>e. y = Inl e \<longrightarrow> e = IndexError)"
    if "update_residual p s pf v R = Some y" for pf
  proof (rule update_residual.raw_induct[OF _ that], goal_cases)
    case (1 f p s pf v R y)
    show ?case
    proof (intro impI allI)
      fix e assume pf: "pf = PyInt d" and y: "y = Inl e"
      show "e = IndexError"
      proof (cases "v = s")
        case True
        with 1(2) y show ?thesis by simp
      next
        case False
        show ?thesis
        proof (cases "getitem p v")
          case (Inl e')
          with False 1(2) y getitem_error[OF Inl] show ?thesis by simp
        next
          case u: (Inr u)
          show ?thesis
          proof (cases "isub_at R u v pf")
            case (Inl e')
            with False u 1(2) y have "e' = e" by simp
            with Inl pf show ?thesis
              by (auto simp: isub_at_def split: sum.splits
                    dest: getitem2_error setitem2_error)
          next
            case R1: (Inr R1)
            show ?thesis
            proof (cases "iadd_at R1 v u pf")
              case (Inl e')
              with False u R1 1(2) y have "e' = e" by simp
              with Inl pf show ?thesis
                by (auto simp: iadd_at_def split: sum.splits
                      dest: getitem2_error setitem2_error)
            next
              case (Inr R2)
              with False u R1 1(2) have "f p s pf u R2 = Some y" by simp
              from 1(1)[OF this] pf y show ?thesis by simp
            qed
          qed
        qed
      qed
    qed
  qed
  with assms show ?thesis by blast
qed

lemma augment_error:
  assumes "augment R p s t = Some (Inl e)"
  shows "e = IndexError"
proof (cases "find_bottleneck R p s t PyInf")
  case None
  with assms show ?thesis by (simp add: augment_def)
next
  case (Some b)
  note fb = find_bottleneck_result[OF Some]
  show ?thesis
  proof (cases b)
    case (Inl e')
    with Some assms fb show ?thesis by (simp add: augment_def)
  next
    case (Inr pf)
    show ?thesis
    proof (cases pf)
      case PyInf
      with Inr fb have "t = s" by simp
      then have "update_residual p s pf t R = Some (Inr R)"
        by (subst update_residual.simps) simp
      with Some Inr assms show ?thesis by (simp add: augment_def)
    next
      case (PyInt d)
      with Some Inr assms obtain y where
        "update_residual p s (PyInt d) t R = Some y" "y = Inl e"
        by (auto simp: augment_def split: option.splits sum.splits)
      with update_residual_no_float show ?thesis by blast
    qed
  qed
qed

lemma setitem_error: "setitem xs i x = Inl e \<Longrightarrow> e = IndexError"
  by (auto simp: setitem_def split: option.splits)

lemma bfs_scan_error: "bfs_scan R t u vs p q = Inl e \<Longrightarrow> e = IndexError"
  by (induction vs arbitrary: p q)
     (auto split: sum.splits if_splits dest: getitem_error getitem2_error setitem_error)

lemma bfs_loop_error: "bfs_loop n R t p q = Inl e \<Longrightarrow> e = IndexError"
  by (induction n R t p q rule: bfs_loop.induct)
     (auto split: sum.splits if_splits dest: bfs_scan_error)

lemma bfs_error: "bfs n R s t = Inl e \<Longrightarrow> e = IndexError"
  by (auto simp: bfs_def simp del: bfs_loop.simps split: sum.splits
        dest: setitem_error bfs_loop_error)

lemma augment_loop_error:
  assumes "augment_loop n s t R mf = Some y"
  shows "\<forall>e. y = Inl e \<longrightarrow> e = IndexError"
proof (rule augment_loop.raw_induct[OF _ assms], goal_cases)
  case (1 f n s t R mf y)
  show ?case
  proof (cases "bfs n R s t")
    case (Inl e)
    with 1(2) bfs_error[OF Inl] show ?thesis by auto
  next
    case (Inr fp)
    then obtain found p where bfs: "bfs n R s t = Inr (found, p)" by (cases fp) auto
    show ?thesis
    proof (cases found)
      case False
      with bfs 1(2) show ?thesis by auto
    next
      case True
      show ?thesis
      proof (cases "augment R p s t")
        case None
        with True bfs 1(2) show ?thesis by simp
      next
        case (Some b)
        show ?thesis
        proof (cases b)
          case (Inl e)
          with Some True bfs 1(2) augment_error[of R p s t e] show ?thesis by auto
        next
          case (Inr Rp)
          obtain R' pf where "Rp = (R', pf)" by (cases Rp)
          with Inr Some True bfs 1(2) have "f n s t R' (py_add mf pf) = Some y" by simp
          from 1(1)[OF this] show ?thesis .
        qed
      qed
    qed
  qed
qed

lemma edmonds_karp_error: "edmonds_karp capacity source sink = Some (Inl e) \<Longrightarrow> e = IndexError"
  using augment_loop_error[of "length capacity" source sink capacity "PyInt 0" "Inl e"]
  by (simp add: edmonds_karp_def)

section \<open>The solver of \<^verbatim>\<open>codeNew.py\<close>\<close>

text \<open>
  \<^verbatim>\<open>codeNew.py\<close>, lines 15 to 60 (\<^verbatim>\<open>bfs\<close> at lines 24 to 38): this file's own definition of
  \<^verbatim>\<open>edmonds_karp\<close>, embedded statement by statement as the one of \<^verbatim>\<open>code.py\<close> above.
\<close>

fun bfs_scan_New ::
  "int list list \<Rightarrow> int \<Rightarrow> int \<Rightarrow> nat list \<Rightarrow> int list \<Rightarrow> int list
     \<Rightarrow> error + (bool \<times> int list \<times> int list)" where
  "bfs_scan_New residual sink u [] parent queue = Inr (False, parent, queue)"
| "bfs_scan_New residual sink u (v # vs) parent queue =
     (case getitem parent (int v) of Inl e \<Rightarrow> Inl e
      | Inr pv \<Rightarrow>
          if pv = - 1 then
            (case getitem2 residual u (int v) of Inl e \<Rightarrow> Inl e
             | Inr r \<Rightarrow>
                 if 0 < r then
                   (case setitem parent (int v) u of Inl e \<Rightarrow> Inl e
                    | Inr parent' \<Rightarrow>
                        if int v = sink then Inr (True, parent', queue @ [int v])
                        else bfs_scan_New residual sink u vs parent' (queue @ [int v]))
                 else bfs_scan_New residual sink u vs parent queue)
          else bfs_scan_New residual sink u vs parent queue)"

lemma bfs_scan_New_eq:
  "bfs_scan_New residual sink u vs parent queue = bfs_scan residual sink u vs parent queue"
  by (induction vs arbitrary: parent queue) (auto split: sum.splits)

function bfs_loop_New ::
  "nat \<Rightarrow> int list list \<Rightarrow> int \<Rightarrow> int list \<Rightarrow> int list \<Rightarrow> error + (bool \<times> int list)" where
  "bfs_loop_New n residual sink parent [] = Inr (False, parent)"
| "bfs_loop_New n residual sink parent (u # queue) =
     (case bfs_scan_New residual sink u [0..<n] parent queue of Inl e \<Rightarrow> Inl e
      | Inr (found, parent', queue') \<Rightarrow>
          if found then Inr (True, parent') else bfs_loop_New n residual sink parent' queue')"
  by pat_completeness auto
termination
proof (relation "inv_image (less_than <*lex*> less_than)
    (\<lambda>(n :: nat, residual :: int list list, sink :: int, parent :: int list, queue :: int list).
       (count_list queue (- 1), 2 * count_list parent (- 1) + length queue))", goal_cases)
  case 1
  show ?case by (intro wf_inv_image wf_lex_prod wf_less_than)
next
  case (2 n residual sink parent u queue x2 x y x1 x2a)
  then have "bfs_scan residual sink u [0..<n] parent queue = Inr (False, x1, x2a)"
    by (simp add: bfs_scan_New_eq)
  from bfs_scan_measure[OF this] show ?case by (cases "u = - 1") auto
qed

definition bfs_New :: "nat \<Rightarrow> int list list \<Rightarrow> int \<Rightarrow> int \<Rightarrow> error + (bool \<times> int list)" where
  "bfs_New n residual source sink =
     (case setitem (replicate n (- 1)) source source of Inl e \<Rightarrow> Inl e
      | Inr parent \<Rightarrow> bfs_loop_New n residual sink parent [source])"

partial_function (option) find_bottleneck_New ::
  "int list list \<Rightarrow> int list \<Rightarrow> int \<Rightarrow> int \<Rightarrow> pynum \<Rightarrow> (error + pynum) option" where
  "find_bottleneck_New residual parent source v path_flow =
     (if v \<noteq> source then
        (case getitem parent v of Inl e \<Rightarrow> Some (Inl e)
         | Inr u \<Rightarrow>
             (case getitem2 residual u v of Inl e \<Rightarrow> Some (Inl e)
              | Inr r \<Rightarrow> find_bottleneck_New residual parent source u (py_min path_flow r)))
      else Some (Inr path_flow))"

partial_function (option) update_residual_New ::
  "int list \<Rightarrow> int \<Rightarrow> pynum \<Rightarrow> int \<Rightarrow> int list list \<Rightarrow> (error + int list list) option" where
  "update_residual_New parent source path_flow v residual =
     (if v \<noteq> source then
        (case getitem parent v of Inl e \<Rightarrow> Some (Inl e)
         | Inr u \<Rightarrow>
             (case isub_at residual u v path_flow of Inl e \<Rightarrow> Some (Inl e)
              | Inr residual1 \<Rightarrow>
                  (case iadd_at residual1 v u path_flow of Inl e \<Rightarrow> Some (Inl e)
                   | Inr residual2 \<Rightarrow> update_residual_New parent source path_flow u residual2)))
      else Some (Inr residual))"

definition augment_New ::
  "int list list \<Rightarrow> int list \<Rightarrow> int \<Rightarrow> int \<Rightarrow> (error + (int list list \<times> pynum)) option" where
  "augment_New residual parent source sink =
     (case find_bottleneck_New residual parent source sink PyInf of None \<Rightarrow> None
      | Some (Inl e) \<Rightarrow> Some (Inl e)
      | Some (Inr path_flow) \<Rightarrow>
          (case update_residual_New parent source path_flow sink residual of None \<Rightarrow> None
           | Some (Inl e) \<Rightarrow> Some (Inl e)
           | Some (Inr residual') \<Rightarrow> Some (Inr (residual', path_flow))))"

partial_function (option) augment_loop_New ::
  "nat \<Rightarrow> int \<Rightarrow> int \<Rightarrow> int list list \<Rightarrow> pynum \<Rightarrow> (error + (int list list \<times> pynum)) option" where
  "augment_loop_New n source sink residual max_flow =
     (case bfs_New n residual source sink of Inl e \<Rightarrow> Some (Inl e)
      | Inr (found, parent) \<Rightarrow>
          if found then
            (case augment_New residual parent source sink of None \<Rightarrow> None
             | Some (Inl e) \<Rightarrow> Some (Inl e)
             | Some (Inr (residual', path_flow)) \<Rightarrow>
                 augment_loop_New n source sink residual' (py_add max_flow path_flow))
          else Some (Inr (residual, max_flow)))"

definition edmonds_karp_New ::
  "int list list \<Rightarrow> int \<Rightarrow> int \<Rightarrow> (error + (int list list \<times> pynum)) option" where
  "edmonds_karp_New capacity source sink =
     augment_loop_New (length capacity) source sink capacity (PyInt 0)"

declare find_bottleneck_New.simps [code]
declare update_residual_New.simps [code]
declare augment_loop_New.simps [code]

lemma bfs_loop_New_eq:
  "bfs_loop_New n residual sink parent queue = bfs_loop n residual sink parent queue"
  by (induction n residual sink parent queue rule: bfs_loop.induct)
     (auto simp: bfs_scan_New_eq split: sum.splits)

lemma bfs_New_eq: "bfs_New n residual source sink = bfs n residual source sink"
  by (simp add: bfs_New_def bfs_def bfs_loop_New_eq cong: sum.case_cong)

lemma find_bottleneck_New_le:
  assumes "find_bottleneck_New R p s v a = Some y"
  shows "find_bottleneck R p s v a = Some y"
  by (rule find_bottleneck_New.raw_induct[OF _ assms])
     (subst find_bottleneck.simps, auto split: if_splits sum.splits)

lemma find_bottleneck_New_ge:
  assumes "find_bottleneck R p s v a = Some y"
  shows "find_bottleneck_New R p s v a = Some y"
  by (rule find_bottleneck.raw_induct[OF _ assms])
     (subst find_bottleneck_New.simps, auto split: if_splits sum.splits)

lemma find_bottleneck_New_eq: "find_bottleneck_New R p s v a = find_bottleneck R p s v a"
proof (cases "find_bottleneck_New R p s v a")
  case None
  then show ?thesis
    using find_bottleneck_New_ge[of R p s v a] by (cases "find_bottleneck R p s v a") auto
next
  case (Some y)
  then show ?thesis using find_bottleneck_New_le by simp
qed

lemma update_residual_New_le:
  assumes "update_residual_New p s pf v R = Some y"
  shows "update_residual p s pf v R = Some y"
  by (rule update_residual_New.raw_induct[OF _ assms])
     (subst update_residual.simps, auto split: if_splits sum.splits)

lemma update_residual_New_ge:
  assumes "update_residual p s pf v R = Some y"
  shows "update_residual_New p s pf v R = Some y"
  by (rule update_residual.raw_induct[OF _ assms])
     (subst update_residual_New.simps, auto split: if_splits sum.splits)

lemma update_residual_New_eq: "update_residual_New p s pf v R = update_residual p s pf v R"
proof (cases "update_residual_New p s pf v R")
  case None
  then show ?thesis
    using update_residual_New_ge[of p s pf v R] by (cases "update_residual p s pf v R") auto
next
  case (Some y)
  then show ?thesis using update_residual_New_le by simp
qed

lemma augment_New_eq: "augment_New R p s t = augment R p s t"
  by (simp add: augment_New_def augment_def find_bottleneck_New_eq update_residual_New_eq
        cong: sum.case_cong option.case_cong)

lemma augment_loop_New_le:
  assumes "augment_loop_New n s t R mf = Some y"
  shows "augment_loop n s t R mf = Some y"
  by (rule augment_loop_New.raw_induct[OF _ assms])
     (subst augment_loop.simps,
      auto simp: bfs_New_eq augment_New_eq split: if_splits sum.splits option.splits)

lemma augment_loop_New_ge:
  assumes "augment_loop n s t R mf = Some y"
  shows "augment_loop_New n s t R mf = Some y"
  by (rule augment_loop.raw_induct[OF _ assms])
     (subst augment_loop_New.simps,
      auto simp: bfs_New_eq augment_New_eq split: if_splits sum.splits option.splits)

lemma augment_loop_New_eq: "augment_loop_New n s t R mf = augment_loop n s t R mf"
proof (cases "augment_loop_New n s t R mf")
  case None
  then show ?thesis
    using augment_loop_New_ge[of n s t R mf] by (cases "augment_loop n s t R mf") auto
next
  case (Some y)
  then show ?thesis using augment_loop_New_le by simp
qed


section \<open>The solver of \<^verbatim>\<open>codeFinal.py\<close>\<close>

text \<open>
  \<^verbatim>\<open>codeFinal.py\<close>, lines 16 to 56 (\<^verbatim>\<open>bfs\<close> at lines 21 to 35): this file's own definition of
  \<^verbatim>\<open>edmonds_karp\<close>, embedded statement by statement as the one of \<^verbatim>\<open>code.py\<close> above.
\<close>

fun bfs_scan_Final ::
  "int list list \<Rightarrow> int \<Rightarrow> int \<Rightarrow> nat list \<Rightarrow> int list \<Rightarrow> int list
     \<Rightarrow> error + (bool \<times> int list \<times> int list)" where
  "bfs_scan_Final residual sink u [] parent queue = Inr (False, parent, queue)"
| "bfs_scan_Final residual sink u (v # vs) parent queue =
     (case getitem parent (int v) of Inl e \<Rightarrow> Inl e
      | Inr pv \<Rightarrow>
          if pv = - 1 then
            (case getitem2 residual u (int v) of Inl e \<Rightarrow> Inl e
             | Inr r \<Rightarrow>
                 if 0 < r then
                   (case setitem parent (int v) u of Inl e \<Rightarrow> Inl e
                    | Inr parent' \<Rightarrow>
                        if int v = sink then Inr (True, parent', queue @ [int v])
                        else bfs_scan_Final residual sink u vs parent' (queue @ [int v]))
                 else bfs_scan_Final residual sink u vs parent queue)
          else bfs_scan_Final residual sink u vs parent queue)"

lemma bfs_scan_Final_eq:
  "bfs_scan_Final residual sink u vs parent queue = bfs_scan residual sink u vs parent queue"
  by (induction vs arbitrary: parent queue) (auto split: sum.splits)

function bfs_loop_Final ::
  "nat \<Rightarrow> int list list \<Rightarrow> int \<Rightarrow> int list \<Rightarrow> int list \<Rightarrow> error + (bool \<times> int list)" where
  "bfs_loop_Final n residual sink parent [] = Inr (False, parent)"
| "bfs_loop_Final n residual sink parent (u # queue) =
     (case bfs_scan_Final residual sink u [0..<n] parent queue of Inl e \<Rightarrow> Inl e
      | Inr (found, parent', queue') \<Rightarrow>
          if found then Inr (True, parent') else bfs_loop_Final n residual sink parent' queue')"
  by pat_completeness auto
termination
proof (relation "inv_image (less_than <*lex*> less_than)
    (\<lambda>(n :: nat, residual :: int list list, sink :: int, parent :: int list, queue :: int list).
       (count_list queue (- 1), 2 * count_list parent (- 1) + length queue))", goal_cases)
  case 1
  show ?case by (intro wf_inv_image wf_lex_prod wf_less_than)
next
  case (2 n residual sink parent u queue x2 x y x1 x2a)
  then have "bfs_scan residual sink u [0..<n] parent queue = Inr (False, x1, x2a)"
    by (simp add: bfs_scan_Final_eq)
  from bfs_scan_measure[OF this] show ?case by (cases "u = - 1") auto
qed

definition bfs_Final :: "nat \<Rightarrow> int list list \<Rightarrow> int \<Rightarrow> int \<Rightarrow> error + (bool \<times> int list)" where
  "bfs_Final n residual source sink =
     (case setitem (replicate n (- 1)) source source of Inl e \<Rightarrow> Inl e
      | Inr parent \<Rightarrow> bfs_loop_Final n residual sink parent [source])"

partial_function (option) find_bottleneck_Final ::
  "int list list \<Rightarrow> int list \<Rightarrow> int \<Rightarrow> int \<Rightarrow> pynum \<Rightarrow> (error + pynum) option" where
  "find_bottleneck_Final residual parent source v path_flow =
     (if v \<noteq> source then
        (case getitem parent v of Inl e \<Rightarrow> Some (Inl e)
         | Inr u \<Rightarrow>
             (case getitem2 residual u v of Inl e \<Rightarrow> Some (Inl e)
              | Inr r \<Rightarrow> find_bottleneck_Final residual parent source u (py_min path_flow r)))
      else Some (Inr path_flow))"

partial_function (option) update_residual_Final ::
  "int list \<Rightarrow> int \<Rightarrow> pynum \<Rightarrow> int \<Rightarrow> int list list \<Rightarrow> (error + int list list) option" where
  "update_residual_Final parent source path_flow v residual =
     (if v \<noteq> source then
        (case getitem parent v of Inl e \<Rightarrow> Some (Inl e)
         | Inr u \<Rightarrow>
             (case isub_at residual u v path_flow of Inl e \<Rightarrow> Some (Inl e)
              | Inr residual1 \<Rightarrow>
                  (case iadd_at residual1 v u path_flow of Inl e \<Rightarrow> Some (Inl e)
                   | Inr residual2 \<Rightarrow> update_residual_Final parent source path_flow u residual2)))
      else Some (Inr residual))"

definition augment_Final ::
  "int list list \<Rightarrow> int list \<Rightarrow> int \<Rightarrow> int \<Rightarrow> (error + (int list list \<times> pynum)) option" where
  "augment_Final residual parent source sink =
     (case find_bottleneck_Final residual parent source sink PyInf of None \<Rightarrow> None
      | Some (Inl e) \<Rightarrow> Some (Inl e)
      | Some (Inr path_flow) \<Rightarrow>
          (case update_residual_Final parent source path_flow sink residual of None \<Rightarrow> None
           | Some (Inl e) \<Rightarrow> Some (Inl e)
           | Some (Inr residual') \<Rightarrow> Some (Inr (residual', path_flow))))"

partial_function (option) augment_loop_Final ::
  "nat \<Rightarrow> int \<Rightarrow> int \<Rightarrow> int list list \<Rightarrow> pynum \<Rightarrow> (error + (int list list \<times> pynum)) option" where
  "augment_loop_Final n source sink residual max_flow =
     (case bfs_Final n residual source sink of Inl e \<Rightarrow> Some (Inl e)
      | Inr (found, parent) \<Rightarrow>
          if found then
            (case augment_Final residual parent source sink of None \<Rightarrow> None
             | Some (Inl e) \<Rightarrow> Some (Inl e)
             | Some (Inr (residual', path_flow)) \<Rightarrow>
                 augment_loop_Final n source sink residual' (py_add max_flow path_flow))
          else Some (Inr (residual, max_flow)))"

definition edmonds_karp_Final ::
  "int list list \<Rightarrow> int \<Rightarrow> int \<Rightarrow> (error + (int list list \<times> pynum)) option" where
  "edmonds_karp_Final capacity source sink =
     augment_loop_Final (length capacity) source sink capacity (PyInt 0)"

declare find_bottleneck_Final.simps [code]
declare update_residual_Final.simps [code]
declare augment_loop_Final.simps [code]

lemma bfs_loop_Final_eq:
  "bfs_loop_Final n residual sink parent queue = bfs_loop n residual sink parent queue"
  by (induction n residual sink parent queue rule: bfs_loop.induct)
     (auto simp: bfs_scan_Final_eq split: sum.splits)

lemma bfs_Final_eq: "bfs_Final n residual source sink = bfs n residual source sink"
  by (simp add: bfs_Final_def bfs_def bfs_loop_Final_eq cong: sum.case_cong)

lemma find_bottleneck_Final_le:
  assumes "find_bottleneck_Final R p s v a = Some y"
  shows "find_bottleneck R p s v a = Some y"
  by (rule find_bottleneck_Final.raw_induct[OF _ assms])
     (subst find_bottleneck.simps, auto split: if_splits sum.splits)

lemma find_bottleneck_Final_ge:
  assumes "find_bottleneck R p s v a = Some y"
  shows "find_bottleneck_Final R p s v a = Some y"
  by (rule find_bottleneck.raw_induct[OF _ assms])
     (subst find_bottleneck_Final.simps, auto split: if_splits sum.splits)

lemma find_bottleneck_Final_eq: "find_bottleneck_Final R p s v a = find_bottleneck R p s v a"
proof (cases "find_bottleneck_Final R p s v a")
  case None
  then show ?thesis
    using find_bottleneck_Final_ge[of R p s v a] by (cases "find_bottleneck R p s v a") auto
next
  case (Some y)
  then show ?thesis using find_bottleneck_Final_le by simp
qed

lemma update_residual_Final_le:
  assumes "update_residual_Final p s pf v R = Some y"
  shows "update_residual p s pf v R = Some y"
  by (rule update_residual_Final.raw_induct[OF _ assms])
     (subst update_residual.simps, auto split: if_splits sum.splits)

lemma update_residual_Final_ge:
  assumes "update_residual p s pf v R = Some y"
  shows "update_residual_Final p s pf v R = Some y"
  by (rule update_residual.raw_induct[OF _ assms])
     (subst update_residual_Final.simps, auto split: if_splits sum.splits)

lemma update_residual_Final_eq: "update_residual_Final p s pf v R = update_residual p s pf v R"
proof (cases "update_residual_Final p s pf v R")
  case None
  then show ?thesis
    using update_residual_Final_ge[of p s pf v R] by (cases "update_residual p s pf v R") auto
next
  case (Some y)
  then show ?thesis using update_residual_Final_le by simp
qed

lemma augment_Final_eq: "augment_Final R p s t = augment R p s t"
  by (simp add: augment_Final_def augment_def find_bottleneck_Final_eq update_residual_Final_eq
        cong: sum.case_cong option.case_cong)

lemma augment_loop_Final_le:
  assumes "augment_loop_Final n s t R mf = Some y"
  shows "augment_loop n s t R mf = Some y"
  by (rule augment_loop_Final.raw_induct[OF _ assms])
     (subst augment_loop.simps,
      auto simp: bfs_Final_eq augment_Final_eq split: if_splits sum.splits option.splits)

lemma augment_loop_Final_ge:
  assumes "augment_loop n s t R mf = Some y"
  shows "augment_loop_Final n s t R mf = Some y"
  by (rule augment_loop.raw_induct[OF _ assms])
     (subst augment_loop_Final.simps,
      auto simp: bfs_Final_eq augment_Final_eq split: if_splits sum.splits option.splits)

lemma augment_loop_Final_eq: "augment_loop_Final n s t R mf = augment_loop n s t R mf"
proof (cases "augment_loop_Final n s t R mf")
  case None
  then show ?thesis
    using augment_loop_Final_ge[of n s t R mf] by (cases "augment_loop n s t R mf") auto
next
  case (Some y)
  then show ?thesis using augment_loop_Final_le by simp
qed

section \<open>The networks of the specification\<close>

text \<open>Scenario 1 of the specification: nodes \<open>s, v1, v2, v3, t\<close> are \<open>0 .. 4\<close>.\<close>

definition scenario1 :: "int list list" where
  "scenario1 =
     [[0, 16, 13, 0, 0],
      [0, 0, 10, 12, 0],
      [0, 4, 0, 0, 14],
      [0, 0, 9, 0, 20],
      [0, 0, 0, 0, 0]]"

text \<open>The second component of a returned pair, when the call returned one.\<close>

definition max_flow_value :: "(error + (int list list \<times> pynum)) option \<Rightarrow> pynum option" where
  "max_flow_value r =
     (case r of Some (Inr (residual, max_flow)) \<Rightarrow> Some max_flow | _ \<Rightarrow> None)"

text \<open>The network written in \<^verbatim>\<open>code.py\<close> and \<^verbatim>\<open>codeNew.py\<close> has one edge more, \<open>v1 \<rightarrow> t = 4\<close>.\<close>

definition capacity_code :: "int list list" where
  "capacity_code =
     [[0, 16, 13, 0, 0],
      [0, 0, 10, 12, 4],
      [0, 4, 0, 0, 14],
      [0, 0, 9, 0, 20],
      [0, 0, 0, 0, 0]]"

lemma capacity_code_max_flow:
  "max_flow_value (edmonds_karp capacity_code 0 4) = Some (PyInt 29)"
  by code_simp

section \<open>Invariants of the breadth-first search\<close>

definition square :: "nat \<Rightarrow> int list list \<Rightarrow> bool" where
  "square n t \<longleftrightarrow> length t = n \<and> (\<forall>row \<in> set t. length row = n)"

inductive parent_path :: "int list \<Rightarrow> nat \<Rightarrow> nat \<Rightarrow> nat list \<Rightarrow> bool"
  for parent :: "int list" and source :: nat where
  at_source: "source < length parent \<Longrightarrow> parent_path parent source source []"
| via_parent: "v \<noteq> source \<Longrightarrow> v < length parent \<Longrightarrow> parent ! v = int u \<Longrightarrow> v \<notin> set cs \<Longrightarrow>
     parent_path parent source u cs \<Longrightarrow> parent_path parent source v (v # cs)"

definition positive_on :: "int list list \<Rightarrow> int list \<Rightarrow> nat list \<Rightarrow> bool" where
  "positive_on residual parent cs \<longleftrightarrow> (\<forall>c \<in> set cs. 0 < residual ! nat (parent ! c) ! c)"

definition bfs_inv :: "nat \<Rightarrow> int list list \<Rightarrow> nat \<Rightarrow> int list \<Rightarrow> int list \<Rightarrow> bool" where
  "bfs_inv n residual s parent queue \<longleftrightarrow>
     length parent = n \<and> s < n \<and> parent ! s \<noteq> - 1 \<and>
     (\<forall>v < n. parent ! v \<noteq> - 1 \<longrightarrow>
        (\<exists>cs. parent_path parent s v cs \<and> positive_on residual parent cs)) \<and>
     (\<forall>x \<in> set queue. \<exists>u < n. x = int u \<and> parent ! u \<noteq> - 1)"

lemma parent_path_marked:
  "parent_path p s w cs \<Longrightarrow> p ! s \<noteq> - 1 \<Longrightarrow> p ! w \<noteq> - 1 \<and> (\<forall>c \<in> set cs. p ! c \<noteq> - 1)"
  by (induction rule: parent_path.induct) auto

lemma parent_path_update:
  "parent_path p s w cs \<Longrightarrow> p ! v = - 1 \<Longrightarrow> p ! s \<noteq> - 1 \<Longrightarrow> parent_path (p[v := x]) s w cs"
proof (induction rule: parent_path.induct)
  case at_source
  then show ?case by (simp add: parent_path.at_source)
next
  case (via_parent w u cs)
  then have "w \<noteq> v" by auto
  with via_parent show ?case by (auto intro: parent_path.via_parent)
qed

lemma positive_on_update:
  "positive_on R p cs \<Longrightarrow> v \<notin> set cs \<Longrightarrow> positive_on R (p[v := x]) cs"
  unfolding positive_on_def by (metis nth_list_update_neq)

lemma getitem2_square:
  "square n R \<Longrightarrow> u < n \<Longrightarrow> v < n \<Longrightarrow> getitem2 R (int u) (int v) = Inr (R ! u ! v)"
  by (simp add: getitem2_def getitem_nat square_def)

lemma bfs_inv_mark:
  assumes inv: "bfs_inv n R s p q" and v: "v < n" "p ! v = - 1"
    and u: "u < n" "p ! u \<noteq> - 1" and r: "0 < R ! u ! v"
  shows "bfs_inv n R s (p[v := int u]) (q @ [int v])"
proof -
  let ?p = "p[v := int u]"
  from inv have len: "length p = n" and s: "s < n" "p ! s \<noteq> - 1"
    and paths: "\<And>w. w < n \<Longrightarrow> p ! w \<noteq> - 1 \<Longrightarrow> \<exists>cs. parent_path p s w cs \<and> positive_on R p cs"
    and qs: "\<And>x. x \<in> set q \<Longrightarrow> \<exists>u < n. x = int u \<and> p ! u \<noteq> - 1"
    by (auto simp: bfs_inv_def)
  have vs: "v \<noteq> s" using v s by auto
  have keep: "\<exists>cs. parent_path ?p s w cs \<and> positive_on R ?p cs" if w: "w < n" "p ! w \<noteq> - 1" for w
  proof -
    from paths[OF w] obtain cs where cs: "parent_path p s w cs" "positive_on R p cs" by blast
    from parent_path_marked[OF cs(1) s(2)] v(2) have "v \<notin> set cs" by auto
    with cs v s show ?thesis
      by (blast intro: parent_path_update positive_on_update)
  qed
  have new: "\<exists>cs. parent_path ?p s v cs \<and> positive_on R ?p cs"
  proof -
    from paths[OF u] obtain cs where cs: "parent_path p s u cs" "positive_on R p cs" by blast
    from parent_path_marked[OF cs(1) s(2)] v(2) have nin: "v \<notin> set cs" by auto
    have 1: "parent_path ?p s u cs" using cs(1) v(2) s(2) by (rule parent_path_update)
    have 2: "parent_path ?p s v (v # cs)"
      using vs v len nin 1 by (intro parent_path.via_parent[where u = u]) auto
    have 3: "positive_on R ?p (v # cs)"
      using positive_on_update[OF cs(2) nin, of "int u"] r v len by (auto simp: positive_on_def)
    from 2 3 show ?thesis by blast
  qed
  have all: "\<exists>cs. parent_path ?p s w cs \<and> positive_on R ?p cs" if w: "w < n" "?p ! w \<noteq> - 1" for w
  proof (cases "w = v")
    case True
    with new show ?thesis by simp
  next
    case False
    with w have "p ! w \<noteq> - 1" by simp
    with keep w show ?thesis by blast
  qed
  have q': "\<exists>u' < n. x = int u' \<and> ?p ! u' \<noteq> - 1" if "x \<in> set (q @ [int v])" for x
  proof (cases "x = int v")
    case True
    with v len show ?thesis by (intro exI[of _ v]) auto
  next
    case False
    with that have "x \<in> set q" by auto
    from qs[OF this] obtain u' where "u' < n" "x = int u'" "p ! u' \<noteq> - 1" by blast
    moreover from this v have "u' \<noteq> v" by auto
    ultimately show ?thesis by (intro exI[of _ u']) auto
  qed
  have "?p ! s \<noteq> - 1" using vs s by simp
  with len s all q' show ?thesis
    unfolding bfs_inv_def by (simp del: set_append) 
qed

lemma bfs_scan_inv:
  assumes sq: "square n R"
  shows "bfs_inv n R s p q \<Longrightarrow> u < n \<Longrightarrow> p ! u \<noteq> - 1 \<Longrightarrow> set vs \<subseteq> {..<n} \<Longrightarrow>
    \<exists>found p' q'. bfs_scan R t (int u) vs p q = Inr (found, p', q') \<and> bfs_inv n R s p' q' \<and>
       (found \<longrightarrow> 0 \<le> t \<and> nat t < n \<and> nat t \<noteq> s \<and> p' ! nat t \<noteq> - 1)"
proof (induction vs arbitrary: p q)
  case Nil
  then show ?case by auto
next
  case (Cons v vs)
  from Cons.prems have v: "v < n" and vs: "set vs \<subseteq> {..<n}" by auto
  from Cons.prems(1) have len: "length p = n" and s: "s < n" "p ! s \<noteq> - 1"
    by (auto simp: bfs_inv_def)
  show ?case
  proof (cases "p ! v = - 1 \<and> 0 < R ! u ! v")
    case True
    let ?p = "p[v := int u]" and ?q = "q @ [int v]"
    have inv': "bfs_inv n R s ?p ?q"
      using Cons.prems(1) v True Cons.prems(2,3) by (intro bfs_inv_mark) auto
    have uv: "u \<noteq> v" using True Cons.prems(3) by auto
    show ?thesis
    proof (cases "int v = t")
      case True
      then have t: "t = int v" by simp
      have "bfs_scan R t (int u) (v # vs) p q = Inr (True, ?p, ?q)"
        unfolding t using \<open>p ! v = - 1 \<and> 0 < R ! u ! v\<close> v len Cons.prems(2) sq
        by (simp add: getitem_nat setitem_nat getitem2_square)
      moreover have "nat t = v" using True by auto
      moreover have "v \<noteq> s" using s \<open>p ! v = - 1 \<and> 0 < R ! u ! v\<close> by auto
      ultimately show ?thesis using inv' v len True by auto
    next
      case False
      have eq: "bfs_scan R t (int u) (v # vs) p q = bfs_scan R t (int u) vs ?p ?q"
        using \<open>p ! v = - 1 \<and> 0 < R ! u ! v\<close> False v len Cons.prems(2) sq
        by (simp add: getitem_nat setitem_nat getitem2_square)
      have "?p ! u \<noteq> - 1" using uv Cons.prems(3) by simp
      from Cons.IH[OF inv' Cons.prems(2) this vs] eq show ?thesis by simp
    qed
  next
    case False
    have eq: "bfs_scan R t (int u) (v # vs) p q = bfs_scan R t (int u) vs p q"
      using False v len Cons.prems(2) sq
      by (auto simp add: getitem_nat setitem_nat getitem2_square)
    from Cons.IH[OF Cons.prems(1,2,3) vs] eq show ?thesis by simp
  qed
qed

lemma bfs_loop_inv:
  "square n R \<Longrightarrow> bfs_inv n R s p q \<Longrightarrow>
    \<exists>found p'. bfs_loop n R t p q = Inr (found, p') \<and> length p' = n \<and>
       (found \<longrightarrow> 0 \<le> t \<and> nat t < n \<and> nat t \<noteq> s \<and>
          (\<exists>cs. parent_path p' s (nat t) cs \<and> positive_on R p' cs))"
proof (induction n R t p q rule: bfs_loop.induct)
  case (1 n residual sink parent)
  then show ?case by (auto simp: bfs_inv_def)
next
  case (2 n residual sink parent x queue)
  from "2.prems" obtain u where u: "u < n" "x = int u" "parent ! u \<noteq> - 1"
    by (auto simp: bfs_inv_def)
  from "2.prems" have inv: "bfs_inv n residual s parent queue"
    by (auto simp: bfs_inv_def)
  from "2.prems" have sq: "square n residual" by simp
  have "set [0..<n] \<subseteq> {..<n}" by auto
  from bfs_scan_inv[OF sq inv u(1,3) this, of sink]
  obtain found p' q' where
    scan: "bfs_scan residual sink (int u) [0..<n] parent queue = Inr (found, p', q')"
    and inv': "bfs_inv n residual s p' q'"
    and fnd: "found \<longrightarrow> 0 \<le> sink \<and> nat sink < n \<and> nat sink \<noteq> s \<and> p' ! nat sink \<noteq> - 1"
    by blast
  show ?case
  proof (cases found)
    case True
    with fnd inv' have "\<exists>cs. parent_path p' s (nat sink) cs \<and> positive_on residual p' cs"
      by (auto simp: bfs_inv_def)
    with True scan u fnd inv' show ?thesis by (auto simp: bfs_inv_def)
  next
    case False
    from "2.IH"[OF _ _ _ _ sq inv'] scan u False
    show ?thesis by auto
  qed
qed

section \<open>The two walks along the parent array\<close>

text \<open>What the two walks along the parent array compute, as functions of the path.\<close>

fun path_min :: "int list list \<Rightarrow> int list \<Rightarrow> nat list \<Rightarrow> pynum \<Rightarrow> pynum" where
  "path_min residual parent [] path_flow = path_flow"
| "path_min residual parent (c # cs) path_flow =
     path_min residual parent cs (py_min path_flow (residual ! nat (parent ! c) ! c))"

definition add_cell :: "int list list \<Rightarrow> nat \<Rightarrow> nat \<Rightarrow> int \<Rightarrow> int list list" where
  "add_cell t a b d = t[a := (t ! a)[b := t ! a ! b + d]]"

fun apply_path :: "int list list \<Rightarrow> int list \<Rightarrow> nat list \<Rightarrow> int \<Rightarrow> int list list" where
  "apply_path residual parent [] pf = residual"
| "apply_path residual parent (c # cs) pf =
     apply_path (add_cell (add_cell residual (nat (parent ! c)) c (- pf)) c (nat (parent ! c)) pf)
       parent cs pf"

definition cell_ind :: "nat \<Rightarrow> nat \<Rightarrow> nat \<Rightarrow> nat \<Rightarrow> int" where
  "cell_ind u v a b = (if u = a \<and> v = b then 1 else 0)"

fun delta :: "int list \<Rightarrow> nat list \<Rightarrow> nat \<Rightarrow> nat \<Rightarrow> int" where
  "delta parent [] a b = 0"
| "delta parent (c # cs) a b =
     cell_ind c (nat (parent ! c)) a b - cell_ind (nat (parent ! c)) c a b + delta parent cs a b"

lemma cell_ind_swap: "cell_ind v u b a = cell_ind u v a b"
  by (auto simp: cell_ind_def)

lemma parent_path_range:
  "parent_path p s v cs \<Longrightarrow>
     v < length p \<and> s < length p \<and> distinct cs \<and> s \<notin> set cs \<and>
     (\<forall>c \<in> set cs. c < length p \<and> 0 \<le> p ! c \<and> nat (p ! c) < length p) \<and>
     (cs = [] \<longleftrightarrow> v = s)"
  by (induction rule: parent_path.induct) auto

lemma square_row: "square n t \<Longrightarrow> a < n \<Longrightarrow> length (t ! a) = n"
  by (simp add: square_def)

lemma square_add_cell: "square n t \<Longrightarrow> square n (add_cell t a b d)"
proof (cases "a < length t")
  case True
  assume sq: "square n t"
  with True have "length (t ! a) = n" by (simp add: square_def)
  with sq show ?thesis
    using set_update_subset_insert[of t a "(t ! a)[b := t ! a ! b + d]"]
    by (auto simp: square_def add_cell_def)
next
  case False
  assume "square n t"
  with False show ?thesis by (simp add: add_cell_def list_update_beyond)
qed

lemma setitem2_square:
  "square n R \<Longrightarrow> u < n \<Longrightarrow> v < n \<Longrightarrow>
     setitem2 R (int u) (int v) x = Inr (R[u := (R ! u)[v := x]])"
  by (simp add: setitem2_def getitem_nat setitem_nat square_def)

lemma add_cell_nth:
  "square n t \<Longrightarrow> a < n \<Longrightarrow> b < n \<Longrightarrow> a' < n \<Longrightarrow> b' < n \<Longrightarrow>
     add_cell t a b d ! a' ! b' = (if a' = a \<and> b' = b then t ! a ! b + d else t ! a' ! b')"
  by (auto simp: square_def add_cell_def nth_list_update)

lemma find_bottleneck_path:
  "parent_path p s v cs \<Longrightarrow> square (length p) R \<Longrightarrow>
     find_bottleneck R p (int s) (int v) acc = Some (Inr (path_min R p cs acc))"
proof (induction arbitrary: acc rule: parent_path.induct)
  case at_source
  then show ?case by (subst find_bottleneck.simps) simp
next
  case (via_parent v u cs)
  from parent_path_range[OF via_parent.hyps(5)] have u: "u < length p" by simp
  show ?case
    using via_parent.hyps(1-3) u via_parent.prems via_parent.IH[OF via_parent.prems]
    by (subst find_bottleneck.simps) (simp add: getitem_nat getitem2_square)
qed

lemma path_min_bounds:
  "path_min R p cs (PyInt a) = PyInt b \<Longrightarrow>
     b \<le> a \<and> (\<forall>c \<in> set cs. b \<le> R ! nat (p ! c) ! c) \<and>
     (0 < a \<and> positive_on R p cs \<longrightarrow> 0 < b)"
proof (induction cs arbitrary: a)
  case Nil
  then show ?case by (simp add: positive_on_def)
next
  case (Cons c cs)
  then show ?case by (fastforce simp: positive_on_def)
qed

lemma path_min_PyInt: "\<exists>b. path_min R p cs (PyInt a) = PyInt b"
  by (induction cs arbitrary: a) auto

lemma path_min_start:
  assumes "cs \<noteq> []" "positive_on R p cs"
  shows "\<exists>pf. path_min R p cs PyInf = PyInt pf \<and> 0 < pf \<and> (\<forall>c \<in> set cs. pf \<le> R ! nat (p ! c) ! c)"
proof -
  from assms(1) obtain c cs' where cs: "cs = c # cs'" by (cases cs) auto
  let ?a = "R ! nat (p ! c) ! c"
  from path_min_PyInt obtain b where b: "path_min R p cs' (PyInt ?a) = PyInt b" by blast
  from assms(2) cs have pos: "0 < ?a" "positive_on R p cs'" by (auto simp: positive_on_def)
  from path_min_bounds[OF b] pos have "b \<le> ?a" "\<forall>c \<in> set cs'. b \<le> R ! nat (p ! c) ! c" "0 < b"
    by auto
  with b cs show ?thesis by auto
qed

lemma isub_at_square:
  "square n R \<Longrightarrow> u < n \<Longrightarrow> v < n \<Longrightarrow>
     isub_at R (int u) (int v) (PyInt pf) = Inr (add_cell R u v (- pf))"
  by (simp add: isub_at_def getitem2_square setitem2_square add_cell_def)

lemma iadd_at_square:
  "square n R \<Longrightarrow> u < n \<Longrightarrow> v < n \<Longrightarrow>
     iadd_at R (int u) (int v) (PyInt pf) = Inr (add_cell R u v pf)"
  by (simp add: iadd_at_def getitem2_square setitem2_square add_cell_def)

lemma update_residual_path:
  "parent_path p s v cs \<Longrightarrow> square (length p) R \<Longrightarrow>
     update_residual p (int s) (PyInt pf) (int v) R = Some (Inr (apply_path R p cs pf))"
proof (induction arbitrary: R rule: parent_path.induct)
  case at_source
  then show ?case by (subst update_residual.simps) simp
next
  case (via_parent v u cs)
  from parent_path_range[OF via_parent.hyps(5)] have u: "u < length p" by simp
  let ?R1 = "add_cell R u v (- pf)"
  let ?R2 = "add_cell ?R1 v u pf"
  have sq1: "square (length p) ?R1" and sq2: "square (length p) ?R2"
    using via_parent.prems by (simp_all add: square_add_cell)
  show ?case
    using via_parent.hyps(1-3) u via_parent.prems sq1 via_parent.IH[OF sq2]
    by (subst update_residual.simps)
       (simp add: getitem_nat isub_at_square[where n = "length p"] iadd_at_square[where n = "length p"])
qed

lemma square_apply_path: "square n R \<Longrightarrow> square n (apply_path R p cs pf)"
  by (induction cs arbitrary: R) (simp_all add: square_add_cell)

lemma apply_path_nth:
  "square n R \<Longrightarrow> \<forall>c \<in> set cs. c < n \<and> nat (p ! c) < n \<Longrightarrow> a < n \<Longrightarrow> b < n \<Longrightarrow>
     apply_path R p cs pf ! a ! b = R ! a ! b + pf * delta p cs a b"
proof (induction cs arbitrary: R)
  case Nil
  then show ?case by simp
next
  case (Cons c cs)
  let ?u = "nat (p ! c)"
  let ?R1 = "add_cell R ?u c (- pf)"
  let ?R2 = "add_cell ?R1 c ?u pf"
  from Cons.prems have c: "c < n" "?u < n" by auto
  have sq1: "square n ?R1" and sq2: "square n ?R2"
    using Cons.prems(1) by (simp_all add: square_add_cell)
  let ?k = "cell_ind c ?u a b - cell_ind ?u c a b"
  have "apply_path R p (c # cs) pf ! a ! b = ?R2 ! a ! b + pf * delta p cs a b"
    using Cons.IH[OF sq2 _ Cons.prems(3,4)] Cons.prems(2) by simp
  also have "?R2 ! a ! b = R ! a ! b + pf * ?k"
  proof -
    have r1: "?R1 ! a ! b = (if a = ?u \<and> b = c then R ! ?u ! c + - pf else R ! a ! b)"
      by (rule add_cell_nth[OF Cons.prems(1) c(2,1) Cons.prems(3,4)])
    have r1c: "?R1 ! c ! ?u = (if c = ?u then R ! ?u ! c + - pf else R ! c ! ?u)"
      using add_cell_nth[OF Cons.prems(1) c(2,1) c(1,2), of "- pf"] by auto
    have r2: "?R2 ! a ! b = (if a = c \<and> b = ?u then ?R1 ! c ! ?u + pf else ?R1 ! a ! b)"
      by (rule add_cell_nth[OF sq1 c(1,2) Cons.prems(3,4)])
    show ?thesis unfolding r2 r1 r1c cell_ind_def by auto
  qed
  finally have e: "apply_path R p (c # cs) pf ! a ! b = R ! a ! b + pf * ?k + pf * delta p cs a b" .
  have d: "delta p (c # cs) a b = ?k + delta p cs a b" by simp
  show ?case unfolding e d by (simp only: distrib_left add.assoc)
qed

lemma delta_antisym: "delta p cs a b + delta p cs b a = 0"
proof (induction cs)
  case Nil
  show ?case by simp
next
  case (Cons c cs)
  have "cell_ind (nat (p ! c)) c b a = cell_ind c (nat (p ! c)) a b"
    and "cell_ind c (nat (p ! c)) b a = cell_ind (nat (p ! c)) c a b"
    by (rule cell_ind_swap)+
  with Cons show ?case by simp
qed

section \<open>One augmentation\<close>

lemma sum_cell_ind: "u < n \<Longrightarrow> (\<Sum>b<n. cell_ind v u a b) = (if v = a then 1 else 0)"
  by (simp add: cell_ind_def)

lemma delta_row_sum:
  "parent_path p s v cs \<Longrightarrow>
     (\<Sum>b<length p. delta p cs a b) = (if a = v then 1 else 0) - (if a = s then 1 else 0)"
proof (induction rule: parent_path.induct)
  case at_source
  show ?case by simp
next
  case (via_parent v u cs)
  from parent_path_range[OF via_parent.hyps(5)] have u: "u < length p" by simp
  have 1: "(\<Sum>b<length p. cell_ind v u a b) = (if v = a then 1 else 0)"
    using u by (rule sum_cell_ind)
  have 2: "(\<Sum>b<length p. cell_ind u v a b) = (if u = a then 1 else 0)"
    using via_parent.hyps(2) by (rule sum_cell_ind)
  have "(\<Sum>b<length p. delta p (v # cs) a b) =
      (\<Sum>b<length p. cell_ind v u a b) - (\<Sum>b<length p. cell_ind u v a b)
        + (\<Sum>b<length p. delta p cs a b)"
    using via_parent.hyps(3) by (simp add: sum.distrib sum_subtractf)
  then show ?case unfolding 1 2 via_parent.IH by auto
qed

lemma delta_lower:
  "distinct cs \<Longrightarrow> - (if b \<in> set cs \<and> nat (p ! b) = a then 1 else 0) \<le> delta p cs a b"
proof (induction cs)
  case Nil
  show ?case by simp
next
  case (Cons c cs)
  then have IH: "- (if b \<in> set cs \<and> nat (p ! b) = a then 1 else 0) \<le> delta p cs a b"
    and c: "c \<notin> set cs" by auto
  have k1: "0 \<le> cell_ind c (nat (p ! c)) a b" by (simp add: cell_ind_def)
  have k2: "cell_ind (nat (p ! c)) c a b = (if c = b \<and> nat (p ! b) = a then 1 else 0)"
    by (auto simp: cell_ind_def)
  show ?case
  proof (cases "c = b")
    case True
    with c have "b \<notin> set cs" by simp
    with IH k1 k2 True show ?thesis by (auto split: if_splits)
  next
    case False
    with IH k1 k2 show ?thesis by (auto split: if_splits)
  qed
qed


definition row_sum :: "nat \<Rightarrow> int list list \<Rightarrow> nat \<Rightarrow> int" where
  "row_sum n t a = (\<Sum>b<n. t ! a ! b)"

lemma bfs_result:
  assumes sq: "square n R" and s: "s < n"
  shows "\<exists>found p. bfs n R (int s) t = Inr (found, p) \<and> length p = n \<and>
     (found \<longrightarrow> (\<exists>tn cs. t = int tn \<and> tn < n \<and> tn \<noteq> s \<and>
        parent_path p s tn cs \<and> positive_on R p cs))"
proof -
  let ?p = "(replicate n (- 1))[s := int s]"
  have set: "setitem (replicate n (- 1)) (int s) (int s) = Inr ?p"
    using s by (simp add: setitem_nat)
  have "parent_path ?p s s []" using s by (intro parent_path.at_source) simp
  moreover have "positive_on R ?p []" by (simp add: positive_on_def)
  moreover have "v = s" if "v < n" "?p ! v \<noteq> - 1" for v
    using that by (cases "v = s") auto
  ultimately have inv: "bfs_inv n R s ?p [int s]"
    using s unfolding bfs_inv_def by auto
  from bfs_loop_inv[OF sq inv, of t] obtain found p' where
    r: "bfs_loop n R t ?p [int s] = Inr (found, p')" "length p' = n"
    "found \<longrightarrow> 0 \<le> t \<and> nat t < n \<and> nat t \<noteq> s \<and>
          (\<exists>cs. parent_path p' s (nat t) cs \<and> positive_on R p' cs)"
    by blast
  have "bfs n R (int s) t = Inr (found, p')"
    using set r(1) by (simp add: bfs_def)
  moreover have "\<exists>tn cs. t = int tn \<and> tn < n \<and> tn \<noteq> s \<and>
        parent_path p' s tn cs \<and> positive_on R p' cs" if found
  proof -
    from r(3) that obtain cs where "0 \<le> t" "nat t < n" "nat t \<noteq> s"
      "parent_path p' s (nat t) cs" "positive_on R p' cs" by blast
    then show ?thesis by (intro exI[of _ "nat t"] exI[of _ cs]) auto
  qed
  ultimately show ?thesis using r(2) by blast
qed

lemma augment_path:
  assumes path: "parent_path p s tn cs" and ne: "tn \<noteq> s"
    and pos: "positive_on R p cs" and sq: "square (length p) R"
  shows "\<exists>pf. augment R p (int s) (int tn) = Some (Inr (apply_path R p cs pf, PyInt pf)) \<and>
     0 < pf \<and> (\<forall>c \<in> set cs. pf \<le> R ! nat (p ! c) ! c)"
proof -
  from parent_path_range[OF path] ne have "cs \<noteq> []" by simp
  from path_min_start[OF this pos] obtain pf where
    pf: "path_min R p cs PyInf = PyInt pf" "0 < pf" "\<forall>c \<in> set cs. pf \<le> R ! nat (p ! c) ! c"
    by blast
  have "augment R p (int s) (int tn) = Some (Inr (apply_path R p cs pf, PyInt pf))"
    by (simp add: augment_def find_bottleneck_path[OF path sq] pf(1)
          update_residual_path[OF path sq])
  with pf show ?thesis by blast
qed

lemma apply_path_pair_sum:
  assumes "square n R" "\<forall>c \<in> set cs. c < n \<and> nat (p ! c) < n" "a < n" "b < n"
  shows "apply_path R p cs pf ! a ! b + apply_path R p cs pf ! b ! a = R ! a ! b + R ! b ! a"
proof -
  have "pf * delta p cs a b + pf * delta p cs b a = 0"
    using delta_antisym[of p cs a b] by (simp add: distrib_left[symmetric])
  then show ?thesis
    using apply_path_nth[OF assms(1,2,3,4), of pf] apply_path_nth[OF assms(1,2,4,3), of pf]
    by simp
qed

lemma apply_path_nonneg:
  assumes sq: "square n R" and rng: "\<forall>c \<in> set cs. c < n \<and> nat (p ! c) < n"
    and ab: "a < n" "b < n" and dist: "distinct cs" and pf: "0 \<le> pf"
    and le: "\<forall>c \<in> set cs. pf \<le> R ! nat (p ! c) ! c" and nonneg: "0 \<le> R ! a ! b"
  shows "0 \<le> apply_path R p cs pf ! a ! b"
proof (cases "b \<in> set cs \<and> nat (p ! b) = a")
  case True
  with le have "pf \<le> R ! a ! b" by auto
  moreover from delta_lower[OF dist, of b p a] True have "- 1 \<le> delta p cs a b" by simp
  then have "- pf \<le> pf * delta p cs a b" using pf
    by (metis mult.right_neutral mult_left_mono mult_minus_right)
  ultimately show ?thesis using apply_path_nth[OF sq rng ab, of pf] by simp
next
  case False
  with delta_lower[OF dist, of b p a] have "0 \<le> delta p cs a b" by simp
  then have "0 \<le> pf * delta p cs a b" using pf by simp
  then show ?thesis using apply_path_nth[OF sq rng ab, of pf] nonneg by simp
qed

lemma apply_path_row_sum:
  assumes path: "parent_path p s tn cs" and sq: "square (length p) R" and a: "a < length p"
  shows "row_sum (length p) (apply_path R p cs pf) a =
     row_sum (length p) R a + pf * ((if a = tn then 1 else 0) - (if a = s then 1 else 0))"
proof -
  from parent_path_range[OF path]
  have rng: "\<forall>c \<in> set cs. c < length p \<and> nat (p ! c) < length p" by simp
  have "row_sum (length p) (apply_path R p cs pf) a =
      (\<Sum>b<length p. R ! a ! b + pf * delta p cs a b)"
    unfolding row_sum_def using apply_path_nth[OF sq rng a] by (intro sum.cong) auto
  also have "\<dots> = row_sum (length p) R a + pf * (\<Sum>b<length p. delta p cs a b)"
    by (simp add: row_sum_def sum.distrib sum_distrib_left)
  finally show ?thesis unfolding delta_row_sum[OF path] .
qed

section \<open>The main loop\<close>

text \<open>
  The states at the head of the \<^verbatim>\<open>while bfs()\<close> loop: the residual table, \<^verbatim>\<open>max_flow\<close>, and
  (not a program variable) the net flow pushed so far on every ordered pair of nodes.
\<close>

inductive solving ::
  "int list list \<Rightarrow> int \<Rightarrow> int \<Rightarrow> int list list \<Rightarrow> pynum \<Rightarrow> (nat \<Rightarrow> nat \<Rightarrow> int) \<Rightarrow> bool"
  for capacity :: "int list list" and source :: int and sink :: int where
  start: "solving capacity source sink capacity (PyInt 0) (\<lambda>a b. 0)"
| step: "solving capacity source sink residual max_flow pushed \<Longrightarrow>
     bfs (length capacity) residual source sink = Inr (True, parent) \<Longrightarrow>
     augment residual parent source sink = Some (Inr (residual', PyInt pf)) \<Longrightarrow>
     parent_path parent (nat source) (nat sink) cs \<Longrightarrow>
     solving capacity source sink residual' (py_add max_flow (PyInt pf))
       (\<lambda>a b. pushed a b - pf * delta parent cs a b)"

lemma parent_path_unique:
  "parent_path p s v cs \<Longrightarrow> parent_path p s v cs' \<Longrightarrow> cs = cs'"
proof (induction arbitrary: cs' rule: parent_path.induct)
  case at_source
  then show ?case by (auto elim: parent_path.cases)
next
  case (via_parent v u cs)
  from via_parent.prems via_parent.hyps(1,3) obtain cs'' where
    "cs' = v # cs''" "parent_path p s u cs''"
    by (auto elim: parent_path.cases)
  with via_parent.IH show ?case by simp
qed

text \<open>What one execution of the loop body does, on a square table with the source in range.\<close>

lemma loop_body:
  assumes sq: "square n R" and s: "s < n"
    and bfs: "bfs n R (int s) t = Inr (True, p)"
  shows "\<exists>tn cs pf. t = int tn \<and> tn < n \<and> tn \<noteq> s \<and> length p = n \<and>
     parent_path p s tn cs \<and> positive_on R p cs \<and> 0 < pf \<and>
     (\<forall>c \<in> set cs. pf \<le> R ! nat (p ! c) ! c) \<and>
     augment R p (int s) t = Some (Inr (apply_path R p cs pf, PyInt pf))"
proof -
  from bfs_result[OF sq s, of t] bfs obtain tn cs where
    t: "t = int tn" "tn < n" "tn \<noteq> s" and len: "length p = n"
    and path: "parent_path p s tn cs" and pos: "positive_on R p cs"
    by auto
  from sq len have sq': "square (length p) R" by simp
  from augment_path[OF path t(3) pos sq'] t len path pos show ?thesis by blast
qed

definition source_room :: "nat \<Rightarrow> int list list \<Rightarrow> nat \<Rightarrow> int" where
  "source_room n t s = (\<Sum>b<n. max 0 (t ! s ! b))"

lemma delta_from_source:
  "a \<notin> set cs \<Longrightarrow> distinct cs \<Longrightarrow>
     delta p cs a b = - (if b \<in> set cs \<and> nat (p ! b) = a then 1 else 0)"
proof (induction cs)
  case Nil
  show ?case by simp
next
  case (Cons c cs)
  then have IH: "delta p cs a b = - (if b \<in> set cs \<and> nat (p ! b) = a then 1 else 0)"
    and c: "c \<noteq> a" "c \<notin> set cs" by auto
  have k1: "cell_ind c (nat (p ! c)) a b = 0" using c(1) by (simp add: cell_ind_def)
  have k2: "cell_ind (nat (p ! c)) c a b = (if c = b \<and> nat (p ! b) = a then 1 else 0)"
    by (auto simp: cell_ind_def)
  show ?case
  proof (cases "c = b")
    case True
    with c have "b \<notin> set cs" by simp
    with IH k1 k2 True show ?thesis by (auto split: if_splits)
  next
    case False
    with IH k1 k2 show ?thesis by (auto split: if_splits)
  qed
qed

lemma source_room_decreases:
  assumes path: "parent_path p s tn cs" and ne: "tn \<noteq> s" and sq: "square (length p) R"
    and pf: "0 < pf" and le: "\<forall>c \<in> set cs. pf \<le> R ! nat (p ! c) ! c"
  shows "source_room (length p) (apply_path R p cs pf) s = source_room (length p) R s - pf"
proof -
  let ?n = "length p"
  from parent_path_range[OF path]
  have rng: "\<forall>c \<in> set cs. c < ?n \<and> nat (p ! c) < ?n" and dist: "distinct cs"
    and s: "s < ?n" "s \<notin> set cs" by auto
  have cell: "max 0 (apply_path R p cs pf ! s ! b) = max 0 (R ! s ! b) + pf * delta p cs s b"
    if b: "b < ?n" for b
  proof -
    have nth: "apply_path R p cs pf ! s ! b = R ! s ! b + pf * delta p cs s b"
      by (rule apply_path_nth[OF sq rng s(1) b])
    show ?thesis
    proof (cases "b \<in> set cs \<and> nat (p ! b) = s")
      case True
      with le have "pf \<le> R ! s ! b" by auto
      moreover from delta_from_source[OF s(2) dist, of p b] True have "delta p cs s b = - 1"
        by simp
      ultimately show ?thesis using pf nth by simp
    next
      case False
      with delta_from_source[OF s(2) dist, of p b] have "delta p cs s b = 0" by simp
      with nth show ?thesis by simp
    qed
  qed
  have "source_room ?n (apply_path R p cs pf) s = (\<Sum>b<?n. max 0 (R ! s ! b) + pf * delta p cs s b)"
    unfolding source_room_def using cell by (intro sum.cong) auto
  also have "\<dots> = source_room ?n R s + pf * (\<Sum>b<?n. delta p cs s b)"
    by (simp add: source_room_def sum.distrib sum_distrib_left)
  finally show ?thesis unfolding delta_row_sum[OF path] using ne by simp
qed

lemma source_room_nonneg: "0 \<le> source_room n t s"
  unfolding source_room_def by (intro sum_nonneg) simp

lemma solving_square:
  "solving cap (int s) t R mf f \<Longrightarrow> square (length cap) cap \<Longrightarrow> s < length cap \<Longrightarrow>
     square (length cap) R"
proof (induction rule: solving.induct)
  case start
  then show ?case by simp
next
  case (step residual max_flow pushed parent residual' pf cs)
  then have sq: "square (length cap) residual" by simp
  from loop_body[OF sq step.prems(2) step.hyps(2)] step.hyps(3)
  obtain cs' pf' where "residual' = apply_path residual parent cs' pf'" by auto
  with sq show ?case by (simp add: square_apply_path)
qed

lemma augment_loop_returns:
  assumes sqc: "square (length cap) cap" and s: "s < length cap"
  shows "solving cap (int s) t R mf f \<Longrightarrow>
     \<exists>R' mf' f'. augment_loop (length cap) (int s) t R mf = Some (Inr (R', mf')) \<and>
        solving cap (int s) t R' mf' f' \<and> (\<exists>p. bfs (length cap) R' (int s) t = Inr (False, p))"
proof (induction "nat (source_room (length cap) R s)" arbitrary: R mf f rule: less_induct)
  case less
  let ?n = "length cap"
  from solving_square[OF less.prems sqc s] have sq: "square ?n R" .
  from bfs_result[OF sq s, of t] obtain found p where
    bfs: "bfs ?n R (int s) t = Inr (found, p)" by blast
  show ?case
  proof (cases found)
    case False
    with bfs have nf: "bfs ?n R (int s) t = Inr (False, p)" by simp
    then have "augment_loop ?n (int s) t R mf = Some (Inr (R, mf))"
      by (subst augment_loop.simps) simp
    with nf less.prems show ?thesis by blast
  next
    case True
    with bfs have bfs': "bfs ?n R (int s) t = Inr (True, p)" by simp
    from loop_body[OF sq s bfs'] obtain tn cs pf where
      t: "t = int tn" "tn < ?n" "tn \<noteq> s" and len: "length p = ?n"
      and path: "parent_path p s tn cs" and pf: "0 < pf"
      and le: "\<forall>c \<in> set cs. pf \<le> R ! nat (p ! c) ! c"
      and aug: "augment R p (int s) t = Some (Inr (apply_path R p cs pf, PyInt pf))"
      by blast
    let ?R' = "apply_path R p cs pf"
    have path': "parent_path p (nat (int s)) (nat t) cs" using path t(1) by simp
    have sol: "solving cap (int s) t ?R' (py_add mf (PyInt pf)) (\<lambda>a b. f a b - pf * delta p cs a b)"
      by (rule solving.step[OF less.prems bfs' aug path'])
    from sq len have sq': "square (length p) R" by simp
    have "source_room ?n ?R' s = source_room ?n R s - pf"
      using source_room_decreases[OF path t(3) sq' pf le] len by simp
    with pf source_room_nonneg[of ?n ?R' s]
    have "nat (source_room ?n ?R' s) < nat (source_room ?n R s)" by linarith
    from less.hyps[OF this sol] obtain R'' mf'' f'' where
      "augment_loop ?n (int s) t ?R' (py_add mf (PyInt pf)) = Some (Inr (R'', mf''))"
      "solving cap (int s) t R'' mf'' f''" "\<exists>p. bfs ?n R'' (int s) t = Inr (False, p)"
      by blast
    moreover have "augment_loop ?n (int s) t R mf
        = augment_loop ?n (int s) t ?R' (py_add mf (PyInt pf))"
      using bfs' aug by (subst augment_loop.simps) simp
    ultimately show ?thesis by auto
  qed
qed

lemma loop_body_unique:
  assumes sq: "square n R" and s: "s < n"
    and bfs: "bfs n R (int s) t = Inr (True, p)"
    and aug: "augment R p (int s) t = Some (Inr (R', PyInt pf))"
    and path: "parent_path p s (nat t) cs"
  shows "t = int (nat t) \<and> nat t < n \<and> nat t \<noteq> s \<and> length p = n \<and> positive_on R p cs \<and>
     0 < pf \<and> (\<forall>c \<in> set cs. pf \<le> R ! nat (p ! c) ! c) \<and> R' = apply_path R p cs pf"
proof -
  from loop_body[OF sq s bfs] obtain tn cs' pf' where
    t: "t = int tn" "tn < n" "tn \<noteq> s" and len: "length p = n"
    and path': "parent_path p s tn cs'" and pos: "positive_on R p cs'" and pf: "0 < pf'"
    and le: "\<forall>c \<in> set cs'. pf' \<le> R ! nat (p ! c) ! c"
    and aug': "augment R p (int s) t = Some (Inr (apply_path R p cs' pf', PyInt pf'))"
    by blast
  from t(1) have tn: "nat t = tn" by simp
  from path path' tn have "cs = cs'" by (auto intro: parent_path_unique)
  moreover from aug aug' have "R' = apply_path R p cs' pf'" "pf = pf'" by auto
  ultimately show ?thesis using t tn len pos pf le by simp
qed

text \<open>Facts of every loop-head state, for tables of any sign.\<close>

lemma solving_flow:
  assumes sqc: "square (length cap) cap" and s: "s < length cap"
  shows "solving cap (int s) t R mf f \<Longrightarrow>
     (\<forall>a < length cap. \<forall>b < length cap. R ! a ! b + f a b = cap ! a ! b) \<and>
     (\<forall>a b. f a b + f b a = 0) \<and>
     (\<forall>a < length cap. a \<noteq> s \<longrightarrow> int a \<noteq> t \<longrightarrow>
        row_sum (length cap) R a = row_sum (length cap) cap a) \<and>
     mf = PyInt (row_sum (length cap) cap s - row_sum (length cap) R s)"
proof (induction rule: solving.induct)
  case start
  show ?case by simp
next
  case (step R mf f p R' pf cs)
  let ?n = "length cap"
  from solving_square[OF step.hyps(1) sqc s] have sq: "square ?n R" .
  from step.hyps(4) have path: "parent_path p s (nat t) cs" by simp
  from loop_body_unique[OF sq s step.hyps(2,3) path]
  have t: "t = int (nat t)" "nat t \<noteq> s" and len: "length p = ?n"
    and R': "R' = apply_path R p cs pf" by simp_all
  from parent_path_range[OF path] len
  have rng: "\<forall>c \<in> set cs. c < ?n \<and> nat (p ! c) < ?n" by simp
  from sq len have sq': "square (length p) R" by simp
  have rows: "row_sum ?n R' a = row_sum ?n R a
      + pf * ((if a = nat t then 1 else 0) - (if a = s then 1 else 0))" if "a < ?n" for a
    using apply_path_row_sum[OF path sq', of a pf] that len R' by simp
  have 1: "\<forall>a < ?n. \<forall>b < ?n. R' ! a ! b + (f a b - pf * delta p cs a b) = cap ! a ! b"
    using step.IH apply_path_nth[OF sq rng, of _ _ pf] R' by simp
  have 2: "\<forall>a b. (f a b - pf * delta p cs a b) + (f b a - pf * delta p cs b a) = 0"
  proof (intro allI)
    fix a b
    have "pf * delta p cs a b + pf * delta p cs b a = 0"
      using delta_antisym[of p cs a b] by (simp add: distrib_left[symmetric])
    moreover from step.IH have "f a b + f b a = 0" by simp
    ultimately show "(f a b - pf * delta p cs a b) + (f b a - pf * delta p cs b a) = 0"
      by simp
  qed
  have 3: "\<forall>a < ?n. a \<noteq> s \<longrightarrow> int a \<noteq> t \<longrightarrow> row_sum ?n R' a = row_sum ?n cap a"
  proof (intro allI impI)
    fix a assume a: "a < ?n" "a \<noteq> s" "int a \<noteq> t"
    then have "a \<noteq> nat t" using t(1) by auto
    with rows[OF a(1)] a(2) have "row_sum ?n R' a = row_sum ?n R a" by simp
    with step.IH a show "row_sum ?n R' a = row_sum ?n cap a" by simp
  qed
  have 4: "py_add mf (PyInt pf) = PyInt (row_sum ?n cap s - row_sum ?n R' s)"
    using step.IH rows[OF s] t(2) by simp
  from 1 2 3 4 show ?case by blast
qed

lemma solving_nonneg:
  assumes sqc: "square (length cap) cap" and s: "s < length cap"
    and nonneg: "\<forall>a < length cap. \<forall>b < length cap. 0 \<le> cap ! a ! b"
  shows "solving cap (int s) t R mf f \<Longrightarrow> \<forall>a < length cap. \<forall>b < length cap. 0 \<le> R ! a ! b"
proof (induction rule: solving.induct)
  case start
  from nonneg show ?case .
next
  case (step R mf f p R' pf cs)
  let ?n = "length cap"
  from solving_square[OF step.hyps(1) sqc s] have sq: "square ?n R" .
  from step.hyps(4) have path: "parent_path p s (nat t) cs" by simp
  from loop_body_unique[OF sq s step.hyps(2,3) path]
  have len: "length p = ?n" and pf: "0 < pf"
    and le: "\<forall>c \<in> set cs. pf \<le> R ! nat (p ! c) ! c"
    and R': "R' = apply_path R p cs pf" by simp_all
  from parent_path_range[OF path] len
  have rng: "\<forall>c \<in> set cs. c < ?n \<and> nat (p ! c) < ?n" and dist: "distinct cs" by simp_all
  show ?case
  proof (intro allI impI)
    fix a b assume ab: "a < ?n" "b < ?n"
    with step.IH have "0 \<le> R ! a ! b" by simp
    with apply_path_nonneg[OF sq rng ab dist _ le] pf R' show "0 \<le> R' ! a ! b" by simp
  qed
qed

section \<open>Valid networks\<close>

text \<open>
  A valid network of the specification: a square table of non-negative integers, source
  and sink distinct and both in \<open>[0, n)\<close>.
\<close>

definition valid_network :: "int list list \<Rightarrow> int \<Rightarrow> int \<Rightarrow> bool" where
  "valid_network capacity source sink \<longleftrightarrow>
     square (length capacity) capacity \<and>
     (\<forall>row \<in> set capacity. \<forall>c \<in> set row. 0 \<le> c) \<and>
     0 \<le> source \<and> source < int (length capacity) \<and>
     0 \<le> sink \<and> sink < int (length capacity) \<and> source \<noteq> sink"

lemma valid_networkD:
  assumes "valid_network cap src snk"
  shows "square (length cap) cap" and "\<forall>a < length cap. \<forall>b < length cap. 0 \<le> cap ! a ! b"
    and "src = int (nat src)" and "nat src < length cap"
    and "snk = int (nat snk)" and "nat snk < length cap" and "nat src \<noteq> nat snk"
proof -
  from assms show sq: "square (length cap) cap" by (simp add: valid_network_def)
  from assms have nn: "\<forall>row \<in> set cap. \<forall>c \<in> set row. 0 \<le> c" by (simp add: valid_network_def)
  show "\<forall>a < length cap. \<forall>b < length cap. 0 \<le> cap ! a ! b"
  proof (intro allI impI)
    fix a b assume "a < length cap" "b < length cap"
    with sq have "cap ! a \<in> set cap" "cap ! a ! b \<in> set (cap ! a)" by (auto simp: square_def)
    with nn show "0 \<le> cap ! a ! b" by blast
  qed
  from assms show "src = int (nat src)" "nat src < length cap" "snk = int (nat snk)"
    "nat snk < length cap" "nat src \<noteq> nat snk"
    by (auto simp: valid_network_def)
qed

lemma edmonds_karp_returns:
  assumes sqc: "square (length cap) cap" and s: "s < length cap"
  shows "\<exists>R mf f. edmonds_karp cap (int s) t = Some (Inr (R, mf)) \<and>
     solving cap (int s) t R mf f \<and> (\<exists>p. bfs (length cap) R (int s) t = Inr (False, p))"
  unfolding edmonds_karp_def
  by (rule augment_loop_returns[OF sqc s solving.start])

lemma row_sum_nonneg: "\<forall>b < n. 0 \<le> t ! a ! b \<Longrightarrow> 0 \<le> row_sum n t a"
  unfolding row_sum_def by (intro sum_nonneg) simp

text \<open>A two-node network with an edge in each direction, and the same with a negative entry.\<close>

definition two_nodes :: "int list list" where
  "two_nodes = [[0, 5], [3, 0]]"

definition two_nodes_negative :: "int list list" where
  "two_nodes_negative = [[0, 5], [- 3, 0]]"

lemma valid_two_nodes: "valid_network two_nodes 0 1"
  by (simp add: valid_network_def square_def two_nodes_def)

section \<open>Deriving the flow on the original edges\<close>

text \<open>
  \<^verbatim>\<open>compute_forward_flow(capacity, residual)\<close> of \<^verbatim>\<open>codeNew.py\<close> and \<^verbatim>\<open>codeFinal.py\<close>: the same
  two nested loops over \<^verbatim>\<open>range(n)\<close>; the files differ in the value stored in a cell, which
  is the parameter \<open>derive\<close>.
\<close>

fun forward_cells ::
  "(int \<Rightarrow> int \<Rightarrow> int) \<Rightarrow> int list list \<Rightarrow> int list list \<Rightarrow> nat \<Rightarrow> nat list
     \<Rightarrow> int list list \<Rightarrow> error + int list list" where
  "forward_cells derive capacity residual u [] flow = Inr flow"
| "forward_cells derive capacity residual u (v # vs) flow =
     (case getitem2 capacity (int u) (int v) of Inl e \<Rightarrow> Inl e
      | Inr c \<Rightarrow>
          if 0 < c then
            (case getitem2 residual (int u) (int v) of Inl e \<Rightarrow> Inl e
             | Inr r \<Rightarrow>
                 (case setitem2 flow (int u) (int v) (derive c r) of Inl e \<Rightarrow> Inl e
                  | Inr flow' \<Rightarrow> forward_cells derive capacity residual u vs flow'))
          else forward_cells derive capacity residual u vs flow)"

fun forward_rows ::
  "(int \<Rightarrow> int \<Rightarrow> int) \<Rightarrow> int list list \<Rightarrow> int list list \<Rightarrow> nat \<Rightarrow> nat list
     \<Rightarrow> int list list \<Rightarrow> error + int list list" where
  "forward_rows derive capacity residual n [] flow = Inr flow"
| "forward_rows derive capacity residual n (u # us) flow =
     (case forward_cells derive capacity residual u [0..<n] flow of Inl e \<Rightarrow> Inl e
      | Inr flow' \<Rightarrow> forward_rows derive capacity residual n us flow')"

definition compute_forward_flow_New :: "int list list \<Rightarrow> int list list \<Rightarrow> error + int list list" where
  "compute_forward_flow_New capacity residual =
     (let n = length capacity in
        forward_rows (\<lambda>c r. max 0 (c - r)) capacity residual n [0..<n]
          (replicate n (replicate n 0)))"

definition compute_forward_flow_Final :: "int list list \<Rightarrow> int list list \<Rightarrow> error + int list list" where
  "compute_forward_flow_Final capacity residual =
     (let n = length capacity in
        forward_rows (\<lambda>c r. c - r) capacity residual n [0..<n]
          (replicate n (replicate n 0)))"

text \<open>The table these loops build from square tables.\<close>

definition flow_cell :: "(int \<Rightarrow> int \<Rightarrow> int) \<Rightarrow> int list list \<Rightarrow> int list list \<Rightarrow> nat \<Rightarrow> nat \<Rightarrow> int" where
  "flow_cell derive capacity residual u v =
     (if 0 < capacity ! u ! v then derive (capacity ! u ! v) (residual ! u ! v) else 0)"

lemma forward_cells_square:
  assumes "square n cap" "square n R" "u < n"
  shows "square n flow \<Longrightarrow> set vs \<subseteq> {..<n} \<Longrightarrow>
     \<exists>flow'. forward_cells g cap R u vs flow = Inr flow' \<and> square n flow' \<and>
       (\<forall>a < n. \<forall>b < n. flow' ! a ! b =
          (if a = u \<and> b \<in> set vs \<and> 0 < cap ! u ! b then flow_cell g cap R u b else flow ! a ! b))"
proof (induction vs arbitrary: flow)
  case Nil
  then show ?case by simp
next
  case (Cons v vs)
  then have v: "v < n" and vs: "set vs \<subseteq> {..<n}" by auto
  show ?case
  proof (cases "0 < cap ! u ! v")
    case False
    from Cons.IH[OF Cons.prems(1) vs] obtain flow' where
      f: "forward_cells g cap R u vs flow = Inr flow'" "square n flow'"
      "\<forall>a < n. \<forall>b < n. flow' ! a ! b =
          (if a = u \<and> b \<in> set vs \<and> 0 < cap ! u ! b then flow_cell g cap R u b else flow ! a ! b)"
      by blast
    have "forward_cells g cap R u (v # vs) flow = Inr flow'"
      using False f(1) assms v by (simp add: getitem2_square)
    moreover have "\<forall>a < n. \<forall>b < n. flow' ! a ! b =
          (if a = u \<and> b \<in> set (v # vs) \<and> 0 < cap ! u ! b then flow_cell g cap R u b else flow ! a ! b)"
      using f(3) False by auto
    ultimately show ?thesis using f(2) by blast
  next
    case True
    let ?x = "g (cap ! u ! v) (R ! u ! v)"
    let ?flow1 = "flow[u := (flow ! u)[v := ?x]]"
    have x: "?x = flow_cell g cap R u v" using True by (simp add: flow_cell_def)
    have sq1: "square n ?flow1"
      using square_add_cell[OF Cons.prems(1), of u v "?x - flow ! u ! v"]
      by (simp add: add_cell_def)
    have nth1: "?flow1 ! a ! b = (if a = u \<and> b = v then ?x else flow ! a ! b)"
      if "a < n" "b < n" for a b
      using add_cell_nth[OF Cons.prems(1) assms(3) v that, of "?x - flow ! u ! v"]
      by (simp add: add_cell_def)
    from Cons.IH[OF sq1 vs] obtain flow' where
      f: "forward_cells g cap R u vs ?flow1 = Inr flow'" "square n flow'"
      "\<forall>a < n. \<forall>b < n. flow' ! a ! b =
          (if a = u \<and> b \<in> set vs \<and> 0 < cap ! u ! b then flow_cell g cap R u b else ?flow1 ! a ! b)"
      by blast
    have "forward_cells g cap R u (v # vs) flow = Inr flow'"
      using True f(1) assms v Cons.prems(1)
      by (simp add: getitem2_square setitem2_square[where n = n])
    moreover have "\<forall>a < n. \<forall>b < n. flow' ! a ! b =
          (if a = u \<and> b \<in> set (v # vs) \<and> 0 < cap ! u ! b then flow_cell g cap R u b else flow ! a ! b)"
      using f(3) nth1 x True by auto
    ultimately show ?thesis using f(2) by blast
  qed
qed

lemma forward_rows_square:
  assumes "square n cap" "square n R"
  shows "square n flow \<Longrightarrow> set us \<subseteq> {..<n} \<Longrightarrow>
     \<exists>flow'. forward_rows g cap R n us flow = Inr flow' \<and> square n flow' \<and>
       (\<forall>a < n. \<forall>b < n. flow' ! a ! b =
          (if a \<in> set us \<and> 0 < cap ! a ! b then flow_cell g cap R a b else flow ! a ! b))"
proof (induction us arbitrary: flow)
  case Nil
  then show ?case by simp
next
  case (Cons u us)
  then have u: "u < n" and us: "set us \<subseteq> {..<n}" by auto
  have all: "set [0..<n] \<subseteq> {..<n}" by auto
  from forward_cells_square[OF assms u Cons.prems(1) all, of g] obtain flow1 where
    f1: "forward_cells g cap R u [0..<n] flow = Inr flow1" "square n flow1"
    "\<forall>a < n. \<forall>b < n. flow1 ! a ! b =
        (if a = u \<and> b \<in> set [0..<n] \<and> 0 < cap ! u ! b then flow_cell g cap R u b else flow ! a ! b)"
    by blast
  from Cons.IH[OF f1(2) us] obtain flow' where
    f: "forward_rows g cap R n us flow1 = Inr flow'" "square n flow'"
    "\<forall>a < n. \<forall>b < n. flow' ! a ! b =
        (if a \<in> set us \<and> 0 < cap ! a ! b then flow_cell g cap R a b else flow1 ! a ! b)"
    by blast
  have "forward_rows g cap R n (u # us) flow = Inr flow'" using f1(1) f(1) by simp
  moreover have "\<forall>a < n. \<forall>b < n. flow' ! a ! b =
        (if a \<in> set (u # us) \<and> 0 < cap ! a ! b then flow_cell g cap R a b else flow ! a ! b)"
    using f(3) f1(3) by auto
  ultimately show ?case using f(2) by blast
qed

lemma forward_flow_table:
  assumes "square (length cap) cap" "square (length cap) R"
  shows "\<exists>flow. forward_rows g cap R (length cap) [0..<length cap]
       (replicate (length cap) (replicate (length cap) 0)) = Inr flow \<and>
     (\<forall>a < length cap. \<forall>b < length cap. flow ! a ! b = flow_cell g cap R a b)"
proof -
  let ?n = "length cap"
  have z: "square ?n (replicate ?n (replicate ?n 0))" by (simp add: square_def)
  have all: "set [0..<?n] \<subseteq> {..<?n}" by auto
  from forward_rows_square[OF assms z all, of g] obtain flow where
    f: "forward_rows g cap R ?n [0..<?n] (replicate ?n (replicate ?n 0)) = Inr flow"
    "\<forall>a < ?n. \<forall>b < ?n. flow ! a ! b =
        (if a \<in> set [0..<?n] \<and> 0 < cap ! a ! b then flow_cell g cap R a b
         else replicate ?n (replicate ?n 0) ! a ! b)"
    by blast
  from f(2) have "\<forall>a < ?n. \<forall>b < ?n. flow ! a ! b = flow_cell g cap R a b"
    by (auto simp: flow_cell_def)
  with f(1) show ?thesis by blast
qed

lemma final_state:
  assumes valid: "valid_network cap src snk"
  shows "\<exists>R mf f. edmonds_karp cap src snk = Some (Inr (R, mf)) \<and> square (length cap) R \<and>
     (\<forall>a < length cap. \<forall>b < length cap. 0 \<le> R ! a ! b) \<and>
     (\<forall>a < length cap. \<forall>b < length cap. R ! a ! b + f a b = cap ! a ! b) \<and>
     (\<forall>a b. f a b + f b a = 0) \<and>
     (\<forall>a < length cap. a \<noteq> nat src \<longrightarrow> a \<noteq> nat snk \<longrightarrow>
        row_sum (length cap) R a = row_sum (length cap) cap a)"
proof -
  note v = valid_networkD[OF valid]
  from edmonds_karp_returns[OF v(1,4), of snk] obtain R mf f where
    r: "edmonds_karp cap (int (nat src)) snk = Some (Inr (R, mf))"
    and sol: "solving cap (int (nat src)) snk R mf f" by blast
  have "int a \<noteq> snk" if "a \<noteq> nat snk" for a using that v(5) by auto
  with solving_flow[OF v(1,4) sol] solving_nonneg[OF v(1,4,2) sol] solving_square[OF sol v(1,4)]
    r v(3)
  show ?thesis by (intro exI[of _ R] exI[of _ mf] exI[of _ f]) auto
qed

lemma max_diff: "max 0 x - max 0 (- x) = (x::int)"
  by simp

text \<open>A chain \<open>0 \<rightarrow> 1 \<rightarrow> 2\<close> with an edge back from 2 to 1: node 1 is neither source nor sink.\<close>

definition chain3 :: "int list list" where
  "chain3 = [[0, 5, 0], [0, 0, 5], [0, 3, 0]]"

lemma valid_chain3: "valid_network chain3 0 2"
  by (simp add: valid_network_def square_def chain3_def)

section \<open>The solver on a store of list objects\<close>

text \<open>
  Python lists are objects: a table is a list of references to row lists, and an
  assignment \<^verbatim>\<open>t[u][v] = x\<close> changes the row object for everyone who holds a reference to
  it.  A store is the sequence of all list objects, an address its position; a new object
  is appended.  The lists \<^verbatim>\<open>parent\<close> and \<^verbatim>\<open>queue\<close> are created inside the call and never
  leave it; they stay values.
\<close>

type_synonym addr = nat

datatype obj = Ints "int list" | Refs "addr list"

type_synonym store = "obj list"

definition ints_at :: "store \<Rightarrow> addr \<Rightarrow> int list option" where
  "ints_at st a =
     (if a < length st then (case st ! a of Ints xs \<Rightarrow> Some xs | Refs rs \<Rightarrow> None) else None)"

definition rows_at :: "store \<Rightarrow> addr \<Rightarrow> addr list option" where
  "rows_at st a =
     (if a < length st then (case st ! a of Refs rs \<Rightarrow> Some rs | Ints xs \<Rightarrow> None) else None)"

text \<open>The value of the table at an address: a list of references to lists of integers.\<close>

definition table_at :: "store \<Rightarrow> addr \<Rightarrow> int list list option" where
  "table_at st a =
     (case rows_at st a of None \<Rightarrow> None
      | Some rs \<Rightarrow>
          if \<forall>r \<in> set rs. ints_at st r \<noteq> None then Some (map (\<lambda>r. the (ints_at st r)) rs)
          else None)"

text \<open>\<^verbatim>\<open>residual[u][v] -= path_flow\<close> and \<^verbatim>\<open>residual[u][v] += path_flow\<close> on the row object.\<close>

definition isub_at_store :: "store \<Rightarrow> addr \<Rightarrow> int \<Rightarrow> int \<Rightarrow> pynum \<Rightarrow> error + store" where
  "isub_at_store st residual u v path_flow =
     (case rows_at st residual of None \<Rightarrow> Inl TypeError
      | Some rs \<Rightarrow>
          (case getitem rs u of Inl e \<Rightarrow> Inl e
           | Inr a \<Rightarrow>
               (case ints_at st a of None \<Rightarrow> Inl TypeError
                | Some row \<Rightarrow>
                    (case getitem row v of Inl e \<Rightarrow> Inl e
                     | Inr x \<Rightarrow>
                         (case path_flow of PyInf \<Rightarrow> Inl FloatResidual
                          | PyInt pf \<Rightarrow>
                              (case setitem row v (x - pf) of Inl e \<Rightarrow> Inl e
                               | Inr row' \<Rightarrow> Inr (st[a := Ints row'])))))))"

definition iadd_at_store :: "store \<Rightarrow> addr \<Rightarrow> int \<Rightarrow> int \<Rightarrow> pynum \<Rightarrow> error + store" where
  "iadd_at_store st residual u v path_flow =
     (case rows_at st residual of None \<Rightarrow> Inl TypeError
      | Some rs \<Rightarrow>
          (case getitem rs u of Inl e \<Rightarrow> Inl e
           | Inr a \<Rightarrow>
               (case ints_at st a of None \<Rightarrow> Inl TypeError
                | Some row \<Rightarrow>
                    (case getitem row v of Inl e \<Rightarrow> Inl e
                     | Inr x \<Rightarrow>
                         (case path_flow of PyInf \<Rightarrow> Inl FloatResidual
                          | PyInt pf \<Rightarrow>
                              (case setitem row v (x + pf) of Inl e \<Rightarrow> Inl e
                               | Inr row' \<Rightarrow> Inr (st[a := Ints row'])))))))"

text \<open>
  The second walk writes into the store.  Every store-level function returns the store it
  leaves behind, also when it raises.
\<close>

partial_function (option) update_residual_store ::
  "int list \<Rightarrow> int \<Rightarrow> pynum \<Rightarrow> int \<Rightarrow> addr \<Rightarrow> store \<Rightarrow> (store \<times> (error + unit)) option" where
  "update_residual_store parent source path_flow v residual st =
     (if v \<noteq> source then
        (case getitem parent v of Inl e \<Rightarrow> Some (st, Inl e)
         | Inr u \<Rightarrow>
             (case isub_at_store st residual u v path_flow of Inl e \<Rightarrow> Some (st, Inl e)
              | Inr st1 \<Rightarrow>
                  (case iadd_at_store st1 residual v u path_flow of Inl e \<Rightarrow> Some (st1, Inl e)
                   | Inr st2 \<Rightarrow>
                       update_residual_store parent source path_flow u residual st2)))
      else Some (st, Inr ()))"

text \<open>
  The search and the first walk only read the residual table; they are run on its current
  value.
\<close>

partial_function (option) augment_loop_store ::
  "nat \<Rightarrow> int \<Rightarrow> int \<Rightarrow> addr \<Rightarrow> pynum \<Rightarrow> store \<Rightarrow> (store \<times> (error + (addr \<times> pynum))) option" where
  "augment_loop_store n source sink residual max_flow st =
     (case table_at st residual of None \<Rightarrow> Some (st, Inl TypeError)
      | Some table \<Rightarrow>
          (case bfs n table source sink of Inl e \<Rightarrow> Some (st, Inl e)
           | Inr (found, parent) \<Rightarrow>
               if found then
                 (case find_bottleneck table parent source sink PyInf of None \<Rightarrow> None
                  | Some (Inl e) \<Rightarrow> Some (st, Inl e)
                  | Some (Inr path_flow) \<Rightarrow>
                      (case update_residual_store parent source path_flow sink residual st of
                         None \<Rightarrow> None
                       | Some (st', Inl e) \<Rightarrow> Some (st', Inl e)
                       | Some (st', Inr u) \<Rightarrow>
                           augment_loop_store n source sink residual
                             (py_add max_flow path_flow) st'))
               else Some (st, Inr (residual, max_flow))))"

text \<open>
  \<^verbatim>\<open>residual = [row[:] for row in capacity]\<close>: a new object for every row, then a new list of
  the references to them.
\<close>

definition edmonds_karp_store ::
  "store \<Rightarrow> addr \<Rightarrow> int \<Rightarrow> int \<Rightarrow> (store \<times> (error + (addr \<times> pynum))) option" where
  "edmonds_karp_store st capacity source sink =
     (case table_at st capacity of None \<Rightarrow> Some (st, Inl TypeError)
      | Some table \<Rightarrow>
          (let n = length table;
               st1 = st @ map Ints table;
               rows = [length st ..< length st + n];
               residual = length st1;
               st2 = st1 @ [Refs rows]
           in augment_loop_store n source sink residual (PyInt 0) st2))"

declare update_residual_store.simps [code]
declare augment_loop_store.simps [code]

section \<open>The store-level solver and the solver on values\<close>

text \<open>The store holds the table \<open>R\<close> at \<open>r\<close>, in the distinct row objects \<open>rs\<close>.\<close>

definition holds :: "store \<Rightarrow> addr \<Rightarrow> addr list \<Rightarrow> int list list \<Rightarrow> bool" where
  "holds st r rs R \<longleftrightarrow>
     rows_at st r = Some rs \<and> distinct rs \<and> length rs = length R \<and>
     (\<forall>i < length rs. ints_at st (rs ! i) = Some (R ! i))"

definition writes_within :: "addr list \<Rightarrow> store \<Rightarrow> store \<Rightarrow> bool" where
  "writes_within rs st st' \<longleftrightarrow>
     length st' = length st \<and> (\<forall>a < length st. a \<notin> set rs \<longrightarrow> st' ! a = st ! a)"

lemma writes_within_refl: "writes_within rs st st"
  by (simp add: writes_within_def)

lemma writes_within_trans:
  "writes_within rs st st1 \<Longrightarrow> writes_within rs st1 st2 \<Longrightarrow> writes_within rs st st2"
  by (simp add: writes_within_def)

lemma holds_table: "holds st r rs R \<Longrightarrow> table_at st r = Some R"
  by (auto simp: holds_def table_at_def in_set_conv_nth intro!: nth_equalityI)

lemma holds_not_row: "holds st r rs R \<Longrightarrow> r \<notin> set rs"
  by (auto simp: holds_def in_set_conv_nth rows_at_def ints_at_def split: if_splits obj.splits)

lemma ints_at_update:
  "ints_at (st[a := Ints row]) b = (if b = a \<and> a < length st then Some row else ints_at st b)"
  by (auto simp: ints_at_def)

lemma rows_at_update:
  "rows_at (st[a := Ints row]) b = (if b = a then None else rows_at st b)"
  by (auto simp: rows_at_def)

lemma write_row:
  assumes h: "holds st r rs R" and k: "k < length rs"
  shows "holds (st[rs ! k := Ints row]) r rs (R[k := row])"
    and "writes_within rs st (st[rs ! k := Ints row])"
proof -
  let ?st = "st[rs ! k := Ints row]"
  from h k have a: "rs ! k < length st"
    by (auto simp: holds_def ints_at_def split: if_splits)
  from holds_not_row[OF h] k have ne: "rs ! k \<noteq> r" by auto
  from h have rows: "rows_at st r = Some rs" and d: "distinct rs" and len: "length rs = length R"
    and cells: "\<And>i. i < length rs \<Longrightarrow> ints_at st (rs ! i) = Some (R ! i)"
    by (auto simp: holds_def)
  have 1: "rows_at ?st r = Some rs" using rows ne by (simp add: rows_at_update)
  have 2: "ints_at ?st (rs ! i) = Some (R[k := row] ! i)" if i: "i < length rs" for i
  proof (cases "i = k")
    case True
    with a len k show ?thesis by (simp add: ints_at_update)
  next
    case False
    with d i k have "rs ! i \<noteq> rs ! k" by (simp add: nth_eq_iff_index_eq)
    with cells[OF i] False show ?thesis by (simp add: ints_at_update)
  qed
  from 1 2 d len show "holds ?st r rs (R[k := row])" by (simp add: holds_def)
  have "?st ! b = st ! b" if "b \<notin> set rs" for b
  proof -
    from that k have "b \<noteq> rs ! k" by auto
    then show ?thesis by simp
  qed
  then show "writes_within rs st ?st" by (simp add: writes_within_def)
qed

lemma isub_at_holds:
  assumes h: "holds st r rs R"
  shows "case isub_at R u v pf of
           Inl e \<Rightarrow> isub_at_store st r u v pf = Inl e
         | Inr R' \<Rightarrow> \<exists>st'. isub_at_store st r u v pf = Inr st' \<and> holds st' r rs R' \<and>
                       writes_within rs st st'"
proof (cases "py_index (length R) u")
  case None
  with h show ?thesis
    by (simp add: isub_at_def isub_at_store_def getitem2_def getitem_def holds_def)
next
  case (Some k)
  then have k: "k < length R" by (auto simp: py_index_def split: if_splits)
  from h k have rows: "rows_at st r = Some rs" and len: "length rs = length R"
    and cell: "ints_at st (rs ! k) = Some (R ! k)" by (auto simp: holds_def)
  from k len have k': "k < length rs" by simp
  show ?thesis
  proof (cases "py_index (length (R ! k)) v")
    case None
    with Some rows len cell show ?thesis
      by (simp add: isub_at_def isub_at_store_def getitem2_def getitem_def)
  next
    case j: (Some j)
    show ?thesis
    proof (cases pf)
      case PyInf
      with Some j rows len cell show ?thesis
        by (simp add: isub_at_def isub_at_store_def getitem2_def getitem_def)
    next
      case (PyInt d)
      let ?row = "(R ! k)[j := R ! k ! j - d]"
      have pure: "isub_at R u v pf = Inr (R[k := ?row])"
        using Some j PyInt
        by (simp add: isub_at_def getitem2_def getitem_def setitem2_def setitem_def)
      have store: "isub_at_store st r u v pf = Inr (st[rs ! k := Ints ?row])"
        using Some j PyInt rows len cell
        by (simp add: isub_at_store_def getitem_def setitem_def)
      from write_row[OF h k', of ?row] pure store show ?thesis by simp
    qed
  qed
qed

lemma iadd_at_holds:
  assumes h: "holds st r rs R"
  shows "case iadd_at R u v pf of
           Inl e \<Rightarrow> iadd_at_store st r u v pf = Inl e
         | Inr R' \<Rightarrow> \<exists>st'. iadd_at_store st r u v pf = Inr st' \<and> holds st' r rs R' \<and>
                       writes_within rs st st'"
proof (cases "py_index (length R) u")
  case None
  with h show ?thesis
    by (simp add: iadd_at_def iadd_at_store_def getitem2_def getitem_def holds_def)
next
  case (Some k)
  then have k: "k < length R" by (auto simp: py_index_def split: if_splits)
  from h k have rows: "rows_at st r = Some rs" and len: "length rs = length R"
    and cell: "ints_at st (rs ! k) = Some (R ! k)" by (auto simp: holds_def)
  from k len have k': "k < length rs" by simp
  show ?thesis
  proof (cases "py_index (length (R ! k)) v")
    case None
    with Some rows len cell show ?thesis
      by (simp add: iadd_at_def iadd_at_store_def getitem2_def getitem_def)
  next
    case j: (Some j)
    show ?thesis
    proof (cases pf)
      case PyInf
      with Some j rows len cell show ?thesis
        by (simp add: iadd_at_def iadd_at_store_def getitem2_def getitem_def)
    next
      case (PyInt d)
      let ?row = "(R ! k)[j := R ! k ! j + d]"
      have pure: "iadd_at R u v pf = Inr (R[k := ?row])"
        using Some j PyInt
        by (simp add: iadd_at_def getitem2_def getitem_def setitem2_def setitem_def)
      have store: "iadd_at_store st r u v pf = Inr (st[rs ! k := Ints ?row])"
        using Some j PyInt rows len cell
        by (simp add: iadd_at_store_def getitem_def setitem_def)
      from write_row[OF h k', of ?row] pure store show ?thesis by simp
    qed
  qed
qed


text \<open>The second walk on the store does what the second walk on the value does.\<close>

lemma update_residual_store_of:
  assumes "update_residual p s pf v R = Some y"
  shows "\<forall>st. holds st r rs R \<longrightarrow>
     (\<exists>st'. update_residual_store p s pf v r st = Some (st', map_sum id (\<lambda>_. ()) y) \<and>
        writes_within rs st st' \<and> (\<forall>R'. y = Inr R' \<longrightarrow> holds st' r rs R'))"
proof (rule update_residual.raw_induct[OF _ assms], goal_cases)
  case (1 f p s pf v R y)
  show ?case
  proof (intro allI impI)
    fix st assume h: "holds st r rs R"
    let ?goal = "\<exists>st'. update_residual_store p s pf v r st = Some (st', map_sum id (\<lambda>_. ()) y) \<and>
        writes_within rs st st' \<and> (\<forall>R'. y = Inr R' \<longrightarrow> holds st' r rs R')"
    show ?goal
    proof (cases "v = s")
      case True
      with 1(2) have "y = Inr R" by simp
      with True h show ?thesis
        by (subst update_residual_store.simps) (simp add: writes_within_refl)
    next
      case vs: False
      show ?thesis
      proof (cases "getitem p v")
        case (Inl e)
        with vs 1(2) have "y = Inl e" by simp
        with vs Inl show ?thesis
          by (subst update_residual_store.simps) (simp add: writes_within_refl)
      next
        case u: (Inr u)
        show ?thesis
        proof (cases "isub_at R u v pf")
          case (Inl e)
          with vs u 1(2) have "y = Inl e" by simp
          moreover from isub_at_holds[OF h, of u v pf] Inl
          have "isub_at_store st r u v pf = Inl e" by simp
          ultimately show ?thesis using vs u
            by (subst update_residual_store.simps) (simp add: writes_within_refl)
        next
          case R1: (Inr R1)
          with isub_at_holds[OF h, of u v pf] obtain st1 where
            st1: "isub_at_store st r u v pf = Inr st1" "holds st1 r rs R1"
            "writes_within rs st st1" by auto
          show ?thesis
          proof (cases "iadd_at R1 v u pf")
            case (Inl e)
            with vs u R1 1(2) have "y = Inl e" by simp
            moreover from iadd_at_holds[OF st1(2), of v u pf] Inl
            have "iadd_at_store st1 r v u pf = Inl e" by simp
            ultimately show ?thesis using vs u st1
              by (subst update_residual_store.simps) simp
          next
            case R2: (Inr R2)
            with iadd_at_holds[OF st1(2), of v u pf] obtain st2 where
              st2: "iadd_at_store st1 r v u pf = Inr st2" "holds st2 r rs R2"
              "writes_within rs st1 st2" by auto
            from vs u R1 R2 1(2) have "f p s pf u R2 = Some y" by simp
            from 1(1)[OF this] st2(2) obtain st' where
              st': "update_residual_store p s pf u r st2 = Some (st', map_sum id (\<lambda>_. ()) y)"
              "writes_within rs st2 st'" "\<forall>R'. y = Inr R' \<longrightarrow> holds st' r rs R'" by blast
            have "update_residual_store p s pf v r st = update_residual_store p s pf u r st2"
              using vs u st1(1) st2(1) by (subst update_residual_store.simps) simp
            moreover have "writes_within rs st st'"
              using st1(3) st2(3) st'(2) by (blast intro: writes_within_trans)
            ultimately show ?thesis using st' by auto
          qed
        qed
      qed
    qed
  qed
qed

lemma update_residual_of_store:
  assumes "update_residual_store p s pf v r st = Some z"
  shows "\<forall>R. holds st r rs R \<longrightarrow>
     (\<exists>y. update_residual p s pf v R = Some y \<and> snd z = map_sum id (\<lambda>_. ()) y \<and>
        writes_within rs st (fst z) \<and> (\<forall>R'. y = Inr R' \<longrightarrow> holds (fst z) r rs R'))"
proof (rule update_residual_store.raw_induct[OF _ assms], goal_cases)
  case (1 f p s pf v r st z)
  show ?case
  proof (intro allI impI)
    fix R assume h: "holds st r rs R"
    let ?goal = "\<exists>y. update_residual p s pf v R = Some y \<and> snd z = map_sum id (\<lambda>_. ()) y \<and>
        writes_within rs st (fst z) \<and> (\<forall>R'. y = Inr R' \<longrightarrow> holds (fst z) r rs R')"
    show ?goal
    proof (cases "v = s")
      case True
      with 1(2) have "z = (st, Inr ())" by simp
      with True h show ?thesis
        by (subst update_residual.simps) (simp add: writes_within_refl)
    next
      case vs: False
      show ?thesis
      proof (cases "getitem p v")
        case (Inl e)
        with vs 1(2) have "z = (st, Inl e)" by simp
        with vs Inl show ?thesis
          by (subst update_residual.simps) (simp add: writes_within_refl)
      next
        case u: (Inr u)
        show ?thesis
        proof (cases "isub_at R u v pf")
          case (Inl e)
          with isub_at_holds[OF h, of u v pf]
          have "isub_at_store st r u v pf = Inl e" by simp
          with vs u 1(2) have "z = (st, Inl e)" by simp
          with vs u Inl show ?thesis
            by (subst update_residual.simps) (simp add: writes_within_refl)
        next
          case R1: (Inr R1)
          with isub_at_holds[OF h, of u v pf] obtain st1 where
            st1: "isub_at_store st r u v pf = Inr st1" "holds st1 r rs R1"
            "writes_within rs st st1" by auto
          show ?thesis
          proof (cases "iadd_at R1 v u pf")
            case (Inl e)
            with iadd_at_holds[OF st1(2), of v u pf]
            have "iadd_at_store st1 r v u pf = Inl e" by simp
            with vs u st1(1) 1(2) have "z = (st1, Inl e)" by simp
            with vs u R1 Inl st1(3) show ?thesis
              by (subst update_residual.simps) simp
          next
            case R2: (Inr R2)
            with iadd_at_holds[OF st1(2), of v u pf] obtain st2 where
              st2: "iadd_at_store st1 r v u pf = Inr st2" "holds st2 r rs R2"
              "writes_within rs st1 st2" by auto
            from vs u st1(1) st2(1) 1(2) have "f p s pf u r st2 = Some z" by simp
            from 1(1)[OF this] st2(2) obtain y where
              y: "update_residual p s pf u R2 = Some y" "snd z = map_sum id (\<lambda>_. ()) y"
              "writes_within rs st2 (fst z)" "\<forall>R'. y = Inr R' \<longrightarrow> holds (fst z) r rs R'"
              by blast
            have "update_residual p s pf v R = update_residual p s pf u R2"
              using vs u R1 R2 by (subst update_residual.simps) simp
            moreover have "writes_within rs st (fst z)"
              using st1(3) st2(3) y(3) by (blast intro: writes_within_trans)
            ultimately show ?thesis using y by auto
          qed
        qed
      qed
    qed
  qed
qed


text \<open>The main loop on the store does what the main loop on the value does.\<close>

lemma augment_loop_store_of:
  assumes "augment_loop n s t R mf = Some y"
  shows "\<forall>st. holds st r rs R \<longrightarrow>
     (\<exists>st'. augment_loop_store n s t r mf st
               = Some (st', map_sum id (\<lambda>(R', mf'). (r, mf')) y) \<and>
        writes_within rs st st' \<and> (\<forall>R' mf'. y = Inr (R', mf') \<longrightarrow> holds st' r rs R'))"
proof (rule augment_loop.raw_induct[OF _ assms], goal_cases)
  case (1 f n s t R mf y)
  show ?case
  proof (intro allI impI)
    fix st assume h: "holds st r rs R"
    note tab = holds_table[OF h]
    let ?goal = "\<exists>st'. augment_loop_store n s t r mf st
               = Some (st', map_sum id (\<lambda>(R', mf'). (r, mf')) y) \<and>
        writes_within rs st st' \<and> (\<forall>R' mf'. y = Inr (R', mf') \<longrightarrow> holds st' r rs R')"
    show ?goal
    proof (cases "bfs n R s t")
      case (Inl e)
      with 1(2) have "y = Inl e" by simp
      with Inl tab show ?thesis
        by (subst augment_loop_store.simps) (simp add: writes_within_refl)
    next
      case (Inr fp)
      then obtain found p where bfs: "bfs n R s t = Inr (found, p)" by (cases fp) auto
      show ?thesis
      proof (cases found)
        case False
        with bfs 1(2) have "y = Inr (R, mf)" by simp
        with False bfs tab h show ?thesis
          by (subst augment_loop_store.simps) (simp add: writes_within_refl)
      next
        case True
        show ?thesis
        proof (cases "find_bottleneck R p s t PyInf")
          case None
          with True bfs 1(2) show ?thesis by (simp add: augment_def)
        next
          case (Some b)
          show ?thesis
          proof (cases b)
            case (Inl e)
            with Some True bfs 1(2) have "y = Inl e" by (simp add: augment_def)
            with Inl Some True bfs tab show ?thesis
              by (subst augment_loop_store.simps) (simp add: writes_within_refl)
          next
            case pf: (Inr pf)
            show ?thesis
            proof (cases "update_residual p s pf t R")
              case None
              with pf Some True bfs 1(2) show ?thesis by (simp add: augment_def)
            next
              case upd: (Some w)
              from update_residual_store_of[OF upd, of r rs] h obtain st1 where
                st1: "update_residual_store p s pf t r st = Some (st1, map_sum id (\<lambda>_. ()) w)"
                "writes_within rs st st1" "\<forall>R'. w = Inr R' \<longrightarrow> holds st1 r rs R'" by blast
              show ?thesis
              proof (cases w)
                case (Inl e)
                with upd pf Some True bfs 1(2) have "y = Inl e" by (simp add: augment_def)
                with Inl st1 pf Some True bfs tab show ?thesis
                  by (subst augment_loop_store.simps) simp
              next
                case R': (Inr R')
                with upd pf Some True bfs 1(2) have "f n s t R' (py_add mf pf) = Some y"
                  by (simp add: augment_def)
                from 1(1)[OF this] st1(3) R' obtain st' where
                  st': "augment_loop_store n s t r (py_add mf pf) st1
                      = Some (st', map_sum id (\<lambda>(R', mf'). (r, mf')) y)"
                  "writes_within rs st1 st'" "\<forall>R' mf'. y = Inr (R', mf') \<longrightarrow> holds st' r rs R'"
                  by blast
                have "augment_loop_store n s t r mf st
                    = augment_loop_store n s t r (py_add mf pf) st1"
                  using R' st1(1) pf Some True bfs tab
                  by (subst augment_loop_store.simps) simp
                moreover have "writes_within rs st st'"
                  using st1(2) st'(2) by (rule writes_within_trans)
                ultimately show ?thesis using st' by auto
              qed
            qed
          qed
        qed
      qed
    qed
  qed
qed

lemma augment_loop_of_store:
  assumes "augment_loop_store n s t r mf st = Some z"
  shows "\<forall>R. holds st r rs R \<longrightarrow>
     (\<exists>y. augment_loop n s t R mf = Some y \<and>
        snd z = map_sum id (\<lambda>(R', mf'). (r, mf')) y \<and>
        writes_within rs st (fst z) \<and> (\<forall>R' mf'. y = Inr (R', mf') \<longrightarrow> holds (fst z) r rs R'))"
proof (rule augment_loop_store.raw_induct[OF _ assms], goal_cases)
  case (1 f n s t r mf st z)
  show ?case
  proof (intro allI impI)
    fix R assume h: "holds st r rs R"
    note tab = holds_table[OF h]
    let ?goal = "\<exists>y. augment_loop n s t R mf = Some y \<and>
        snd z = map_sum id (\<lambda>(R', mf'). (r, mf')) y \<and>
        writes_within rs st (fst z) \<and> (\<forall>R' mf'. y = Inr (R', mf') \<longrightarrow> holds (fst z) r rs R')"
    show ?goal
    proof (cases "bfs n R s t")
      case (Inl e)
      with tab 1(2) have "z = (st, Inl e)" by simp
      with Inl show ?thesis
        by (subst augment_loop.simps) (simp add: writes_within_refl)
    next
      case (Inr fp)
      then obtain found p where bfs: "bfs n R s t = Inr (found, p)" by (cases fp) auto
      show ?thesis
      proof (cases found)
        case False
        with bfs tab 1(2) have "z = (st, Inr (r, mf))" by simp
        with False bfs h show ?thesis
          by (subst augment_loop.simps) (simp add: writes_within_refl)
      next
        case True
        show ?thesis
        proof (cases "find_bottleneck R p s t PyInf")
          case None
          with True bfs tab 1(2) show ?thesis by simp
        next
          case (Some b)
          show ?thesis
          proof (cases b)
            case (Inl e)
            with Some True bfs tab 1(2) have "z = (st, Inl e)" by simp
            with Inl Some True bfs show ?thesis
              by (subst augment_loop.simps) (simp add: augment_def writes_within_refl)
          next
            case pf: (Inr pf)
            show ?thesis
            proof (cases "update_residual_store p s pf t r st")
              case None
              with pf Some True bfs tab 1(2) show ?thesis by simp
            next
              case upd: (Some w)
              from update_residual_of_store[OF upd, of rs] h obtain y1 where
                y1: "update_residual p s pf t R = Some y1" "snd w = map_sum id (\<lambda>_. ()) y1"
                "writes_within rs st (fst w)" "\<forall>R'. y1 = Inr R' \<longrightarrow> holds (fst w) r rs R'"
                by blast
              obtain st1 o1 where w: "w = (st1, o1)" by (cases w)
              show ?thesis
              proof (cases y1)
                case (Inl e)
                with y1(2) w have "o1 = Inl e" by simp
                with upd w pf Some True bfs tab 1(2) have "z = (st1, Inl e)" by simp
                with Inl y1 w pf Some True bfs show ?thesis
                  by (subst augment_loop.simps) (simp add: augment_def)
              next
                case R': (Inr R')
                with y1(2) w have "o1 = Inr ()" by simp
                with upd w pf Some True bfs tab 1(2)
                have fz: "f n s t r (py_add mf pf) st1 = Some z" by simp
                from y1(4) R' w have h1: "holds st1 r rs R'" by simp
                from 1(1)[OF fz] h1 obtain y where
                  y: "augment_loop n s t R' (py_add mf pf) = Some y"
                  "snd z = map_sum id (\<lambda>(R', mf'). (r, mf')) y"
                  "writes_within rs st1 (fst z)"
                  "\<forall>R' mf'. y = Inr (R', mf') \<longrightarrow> holds (fst z) r rs R'"
                  by blast
                have "augment_loop n s t R mf = augment_loop n s t R' (py_add mf pf)"
                  using R' y1(1) pf Some True bfs
                  by (subst augment_loop.simps) (simp add: augment_def)
                moreover have "writes_within rs st (fst z)"
                  using y1(3) y(3) w by (auto intro: writes_within_trans)
                ultimately show ?thesis using y by auto
              qed
            qed
          qed
        qed
      qed
    qed
  qed
qed


text \<open>The copy made at the start of a call, and what the whole call does to the store.\<close>

lemma copy_holds:
  "holds (st @ map Ints t @ [Refs [length st ..< length st + length t]])
     (length st + length t) [length st ..< length st + length t] t"
proof -
  let ?rows = "[length st ..< length st + length t]"
  let ?st2 = "st @ map Ints t @ [Refs ?rows]"
  have "rows_at ?st2 (length st + length t) = Some ?rows"
    by (simp add: rows_at_def nth_append)
  moreover have "ints_at ?st2 (?rows ! i) = Some (t ! i)" if "i < length ?rows" for i
    using that by (simp add: ints_at_def nth_append)
  ultimately show ?thesis by (simp add: holds_def)
qed

lemma edmonds_karp_store_unfold:
  "table_at st c = Some t \<Longrightarrow>
     edmonds_karp_store st c s k =
       augment_loop_store (length t) s k (length st + length t) (PyInt 0)
         (st @ map Ints t @ [Refs [length st ..< length st + length t]])"
  by (simp add: edmonds_karp_store_def Let_def)

lemma writes_within_copy:
  assumes "writes_within [length st ..< length st + m] (st @ more) st'"
  shows "take (length st) st' = st"
proof (rule nth_equalityI)
  from assms show "length (take (length st) st') = length st"
    by (simp add: writes_within_def)
next
  fix i assume "i < length (take (length st) st')"
  then have i: "i < length st" by simp
  with assms have "st' ! i = (st @ more) ! i" by (simp add: writes_within_def)
  with i show "take (length st) st' ! i = st ! i" by (simp add: nth_append)
qed

lemma table_at_prefix:
  assumes "table_at st c = Some t" and "take (length st) st' = st"
  shows "table_at st' c = Some t"
proof -
  from arg_cong[OF assms(2), of length] have len: "length st \<le> length st'"
    by simp
  have same: "st' ! a = st ! a" if "a < length st" for a
    using that assms(2) by (metis nth_take)
  from assms(1) obtain rs where rs: "rows_at st c = Some rs"
    and all: "\<forall>r \<in> set rs. ints_at st r \<noteq> None"
    and t: "t = map (\<lambda>r. the (ints_at st r)) rs"
    by (auto simp: table_at_def split: option.splits if_splits)
  from rs have "rows_at st' c = Some rs"
    using same len by (auto simp: rows_at_def split: if_splits)
  moreover have "ints_at st' r = ints_at st r" if "r \<in> set rs" for r
  proof -
    from all that have "r < length st" by (auto simp: ints_at_def split: if_splits)
    with same len show ?thesis by (simp add: ints_at_def)
  qed
  ultimately show ?thesis using all t by (simp add: table_at_def cong: map_cong)
qed

text \<open>What a call returns, with the returned table read from the store it leaves.\<close>

definition outcome ::
  "(store \<times> (error + (addr \<times> pynum))) option
     \<Rightarrow> (error + (int list list option \<times> pynum)) option" where
  "outcome res =
     (case res of None \<Rightarrow> None
      | Some (st', Inl e) \<Rightarrow> Some (Inl e)
      | Some (st', Inr (r, max_flow)) \<Rightarrow> Some (Inr (table_at st' r, max_flow)))"

lemma edmonds_karp_store_value:
  assumes tab: "table_at st c = Some t"
  shows "outcome (edmonds_karp_store st c s k) =
     map_option (map_sum id (\<lambda>(R, mf). (Some R, mf))) (edmonds_karp t s k)"
proof -
  let ?r = "length st + length t"
  let ?rows = "[length st ..< length st + length t]"
  let ?st2 = "st @ map Ints t @ [Refs ?rows]"
  note h = copy_holds[of st t]
  note unf = edmonds_karp_store_unfold[OF tab, of s k]
  show ?thesis
  proof (cases "edmonds_karp t s k")
    case (Some y)
    then have "augment_loop (length t) s k t (PyInt 0) = Some y" by (simp add: edmonds_karp_def)
    from augment_loop_store_of[OF this, of ?r ?rows] h obtain st' where
      st': "augment_loop_store (length t) s k ?r (PyInt 0) ?st2
          = Some (st', map_sum id (\<lambda>(R', mf'). (?r, mf')) y)"
      "\<forall>R' mf'. y = Inr (R', mf') \<longrightarrow> holds st' ?r ?rows R'" by blast
    show ?thesis
    proof (cases y)
      case (Inl e)
      with Some st'(1) unf show ?thesis by (simp add: outcome_def)
    next
      case (Inr Rm)
      obtain R mf where Rm: "Rm = (R, mf)" by (cases Rm)
      with Inr st'(2) have "table_at st' ?r = Some R" by (simp add: holds_table)
      with Inr Rm Some st'(1) unf show ?thesis by (simp add: outcome_def)
    qed
  next
    case None
    have "edmonds_karp_store st c s k = None"
    proof (cases "edmonds_karp_store st c s k")
      case (Some z)
      with unf have "augment_loop_store (length t) s k ?r (PyInt 0) ?st2 = Some z" by simp
      from augment_loop_of_store[OF this, of ?rows] h
      obtain y where "augment_loop (length t) s k t (PyInt 0) = Some y" by blast
      with None show ?thesis by (simp add: edmonds_karp_def)
    qed simp
    with None show ?thesis by (simp add: outcome_def)
  qed
qed

lemma edmonds_karp_store_frame:
  assumes run: "edmonds_karp_store st c s k = Some (st', res)"
  shows "take (length st) st' = st \<and> table_at st' c = table_at st c \<and>
     (\<forall>r mf. res = Inr (r, mf) \<longrightarrow>
        length st \<le> r \<and>
        (\<exists>rs. rows_at st' r = Some rs \<and> (\<forall>a \<in> set rs. length st \<le> a)))"
proof (cases "table_at st c")
  case None
  with run have "st' = st" "res = Inl TypeError" by (simp_all add: edmonds_karp_store_def)
  then show ?thesis by simp
next
  case (Some t)
  let ?r = "length st + length t"
  let ?rows = "[length st ..< length st + length t]"
  let ?st2 = "st @ map Ints t @ [Refs ?rows]"
  note h = copy_holds[of st t]
  from run edmonds_karp_store_unfold[OF Some, of s k]
  have "augment_loop_store (length t) s k ?r (PyInt 0) ?st2 = Some (st', res)" by simp
  from augment_loop_of_store[OF this, of ?rows] h obtain y where
    y: "res = map_sum id (\<lambda>(R', mf'). (?r, mf')) y" "writes_within ?rows ?st2 st'"
    "\<forall>R' mf'. y = Inr (R', mf') \<longrightarrow> holds st' ?r ?rows R'" by auto
  from y(2) have frame: "take (length st) st' = st" by (rule writes_within_copy)
  from table_at_prefix[OF Some frame] Some have tab: "table_at st' c = table_at st c" by simp
  have "length st \<le> r \<and> (\<exists>rs. rows_at st' r = Some rs \<and> (\<forall>a \<in> set rs. length st \<le> a))"
    if "res = Inr (r, mf)" for r mf
  proof -
    from that y(1) obtain R where "y = Inr (R, mf)" "r = ?r" by (cases y) auto
    with y(3) have "holds st' ?r ?rows R" by simp
    then have "rows_at st' ?r = Some ?rows" unfolding holds_def by blast
    with \<open>r = ?r\<close> show ?thesis by auto
  qed
  with frame tab show ?thesis by blast
qed


text \<open>Two stores that hold the two-node table, at different addresses and in a different order.\<close>

definition two_nodes_store :: store where
  "two_nodes_store = [Ints [0, 5], Ints [3, 0], Refs [0, 1]]"

definition shifted_store :: store where
  "shifted_store = [Refs [2, 1], Ints [3, 0], Ints [0, 5], Ints [7]]"

section \<open>Inside the updating walk\<close>

text \<open>
  The states inside the second walk: the node \<open>v\<close> it stands at and the residual table at
  that moment, from the entry of the walk on.
\<close>

inductive updating ::
  "int list list \<Rightarrow> int \<Rightarrow> int \<Rightarrow> int list \<Rightarrow> pynum \<Rightarrow> int \<Rightarrow> int list list \<Rightarrow> bool"
  for capacity :: "int list list" and source :: int and sink :: int where
  enter: "solving capacity source sink residual max_flow pushed \<Longrightarrow>
     bfs (length capacity) residual source sink = Inr (True, parent) \<Longrightarrow>
     find_bottleneck residual parent source sink PyInf = Some (Inr path_flow) \<Longrightarrow>
     updating capacity source sink parent path_flow sink residual"
| advance: "updating capacity source sink parent path_flow v residual \<Longrightarrow>
     v \<noteq> source \<Longrightarrow> getitem parent v = Inr u \<Longrightarrow>
     isub_at residual u v path_flow = Inr residual1 \<Longrightarrow>
     iadd_at residual1 v u path_flow = Inr residual2 \<Longrightarrow>
     updating capacity source sink parent path_flow u residual2"

lemma apply_path_append:
  "apply_path R p (pre @ [c]) pf =
     add_cell (add_cell (apply_path R p pre pf) (nat (p ! c)) c (- pf)) c (nat (p ! c)) pf"
  by (induction pre arbitrary: R) simp_all

definition in_walk ::
  "int list list \<Rightarrow> nat \<Rightarrow> int list \<Rightarrow> pynum \<Rightarrow> int \<Rightarrow> int list list \<Rightarrow> bool" where
  "in_walk cap s p path_flow v R \<longleftrightarrow>
     (\<exists>R0 pre suf d vn tn.
        square (length cap) R0 \<and> (\<forall>a < length cap. \<forall>b < length cap. 0 \<le> R0 ! a ! b) \<and>
        length p = length cap \<and> parent_path p s tn (pre @ suf) \<and> parent_path p s vn suf \<and>
        v = int vn \<and> path_flow = PyInt d \<and> 0 < d \<and>
        (\<forall>c \<in> set (pre @ suf). d \<le> R0 ! nat (p ! c) ! c) \<and>
        R = apply_path R0 p pre d)"

lemma updating_in_walk:
  assumes sqc: "square (length cap) cap" and s: "s < length cap"
    and nonneg: "\<forall>a < length cap. \<forall>b < length cap. 0 \<le> cap ! a ! b"
  shows "updating cap (int s) t p pf v R \<Longrightarrow> in_walk cap s p pf v R"
proof (induction rule: updating.induct)
  case (enter R mf f p pf)
  let ?n = "length cap"
  from solving_square[OF enter.hyps(1) sqc s] have sq: "square ?n R" .
  from solving_nonneg[OF sqc s nonneg enter.hyps(1)]
  have nn: "\<forall>a < ?n. \<forall>b < ?n. 0 \<le> R ! a ! b" .
  from loop_body[OF sq s enter.hyps(2)] obtain tn cs where
    t: "t = int tn" "tn \<noteq> s" and len: "length p = ?n"
    and path: "parent_path p s tn cs" and pos: "positive_on R p cs" by blast
  from sq len have sq': "square (length p) R" by simp
  from parent_path_range[OF path] t(2) have "cs \<noteq> []" by simp
  from path_min_start[OF this pos] obtain d where
    d: "path_min R p cs PyInf = PyInt d" "0 < d" "\<forall>c \<in> set cs. d \<le> R ! nat (p ! c) ! c"
    by blast
  from find_bottleneck_path[OF path sq', of PyInf] enter.hyps(3) t(1) d(1)
  have pf: "pf = PyInt d" by simp
  show ?case
    unfolding in_walk_def
    by (intro exI[of _ R] exI[of _ "[]"] exI[of _ cs] exI[of _ d] exI[of _ tn])
       (use sq nn len path t pf d in auto)
next
  case (advance p pf v R u R1 R2)
  let ?n = "length cap"
  from advance.IH obtain R0 pre suf d vn tn where
    sq0: "square ?n R0" and nn0: "\<forall>a < ?n. \<forall>b < ?n. 0 \<le> R0 ! a ! b"
    and len: "length p = ?n" and whole: "parent_path p s tn (pre @ suf)"
    and rest: "parent_path p s vn suf" and v: "v = int vn" and pf: "pf = PyInt d" "0 < d"
    and le: "\<forall>c \<in> set (pre @ suf). d \<le> R0 ! nat (p ! c) ! c"
    and R: "R = apply_path R0 p pre d"
    unfolding in_walk_def by blast
  from advance.hyps(2) v have "vn \<noteq> s" by auto
  with rest obtain un suf' where suf: "suf = vn # suf'" and pv: "p ! vn = int un"
    and vn: "vn < length p" and rest': "parent_path p s un suf'"
    by (auto elim: parent_path.cases)
  from parent_path_range[OF rest'] have un: "un < length p" by simp
  from advance.hyps(3) v vn pv have u: "u = int un" by (simp add: getitem_nat)
  from sq0 R have sq: "square ?n R" by (simp add: square_apply_path)
  from advance.hyps(4) u v pf isub_at_square[OF sq, of un vn d] un vn len
  have R1: "R1 = add_cell R un vn (- d)" by simp
  have sq1: "square ?n R1" unfolding R1 using sq by (rule square_add_cell)
  from advance.hyps(5) u v pf iadd_at_square[OF sq1, of vn un d] un vn len
  have R2: "R2 = add_cell R1 vn un d" by simp
  have "R2 = apply_path R0 p (pre @ [vn]) d"
    unfolding R2 R1 R apply_path_append pv by simp
  moreover have "parent_path p s tn ((pre @ [vn]) @ suf')" using whole suf by simp
  moreover have "\<forall>c \<in> set ((pre @ [vn]) @ suf'). d \<le> R0 ! nat (p ! c) ! c"
    using le suf by simp
  ultimately show ?case
    unfolding in_walk_def
    by (intro exI[of _ R0] exI[of _ "pre @ [vn]"] exI[of _ suf'] exI[of _ d] exI[of _ un]
          exI[of _ tn])
       (use sq0 nn0 len rest' u pf in auto)
qed

lemma in_walk_nonneg:
  assumes w: "in_walk cap s p pf v R"
  shows "square (length cap) R \<and> (\<forall>a < length cap. \<forall>b < length cap. 0 \<le> R ! a ! b) \<and>
     (v \<noteq> int s \<longrightarrow>
        (\<exists>u R1 R2. getitem p v = Inr u \<and> isub_at R u v pf = Inr R1 \<and>
           iadd_at R1 v u pf = Inr R2 \<and>
           square (length cap) R1 \<and> square (length cap) R2 \<and>
           (\<forall>a < length cap. \<forall>b < length cap. 0 \<le> R1 ! a ! b \<and> 0 \<le> R2 ! a ! b)))"
proof -
  let ?n = "length cap"
  from w obtain R0 pre suf d vn tn where
    sq0: "square ?n R0" and nn0: "\<forall>a < ?n. \<forall>b < ?n. 0 \<le> R0 ! a ! b"
    and len: "length p = ?n" and whole: "parent_path p s tn (pre @ suf)"
    and rest: "parent_path p s vn suf" and v: "v = int vn" and pf: "pf = PyInt d" "0 < d"
    and le: "\<forall>c \<in> set (pre @ suf). d \<le> R0 ! nat (p ! c) ! c"
    and R: "R = apply_path R0 p pre d"
    unfolding in_walk_def by blast
  from parent_path_range[OF whole] len
  have rng: "\<forall>c \<in> set (pre @ suf). c < ?n \<and> nat (p ! c) < ?n" and dist: "distinct (pre @ suf)"
    by simp_all
  have prefix_nonneg: "0 \<le> apply_path R0 p qs d ! a ! b"
    if qs: "set qs \<subseteq> set (pre @ suf)" "distinct qs" and ab: "a < ?n" "b < ?n" for qs a b
  proof -
    from qs(1) rng have r: "\<forall>c \<in> set qs. c < ?n \<and> nat (p ! c) < ?n" by blast
    from qs(1) le have l: "\<forall>c \<in> set qs. d \<le> R0 ! nat (p ! c) ! c" by blast
    from nn0 ab have "0 \<le> R0 ! a ! b" by simp
    with apply_path_nonneg[OF sq0 r ab qs(2) _ l] pf(2) show ?thesis by simp
  qed
  have now: "\<forall>a < ?n. \<forall>b < ?n. 0 \<le> R ! a ! b"
    unfolding R using dist by (intro allI impI prefix_nonneg) auto
  have next_step: "\<exists>u R1 R2. getitem p v = Inr u \<and> isub_at R u v pf = Inr R1 \<and>
           iadd_at R1 v u pf = Inr R2 \<and> square ?n R1 \<and> square ?n R2 \<and>
           (\<forall>a < ?n. \<forall>b < ?n. 0 \<le> R1 ! a ! b \<and> 0 \<le> R2 ! a ! b)" if "v \<noteq> int s"
  proof -
    from that v have "vn \<noteq> s" by auto
    with rest obtain un suf' where suf: "suf = vn # suf'" and pv: "p ! vn = int un"
      and vn: "vn < length p" and rest': "parent_path p s un suf'"
      by (auto elim: parent_path.cases)
    from parent_path_range[OF rest'] have un: "un < length p" by simp
    from sq0 R have sq: "square ?n R" by (simp add: square_apply_path)
    let ?R1 = "add_cell R un vn (- d)"
    let ?R2 = "add_cell ?R1 vn un d"
    have sq1: "square ?n ?R1" using sq by (rule square_add_cell)
    have g: "getitem p v = Inr (int un)" using v vn pv by (simp add: getitem_nat)
    have i1: "isub_at R (int un) v pf = Inr ?R1"
      using isub_at_square[OF sq, of un vn d] un vn len v pf by simp
    have i2: "iadd_at ?R1 v (int un) pf = Inr ?R2"
      using iadd_at_square[OF sq1, of vn un d] un vn len v pf by simp
    have R2: "?R2 = apply_path R0 p (pre @ [vn]) d"
      unfolding R apply_path_append pv by simp
    have nn2: "0 \<le> ?R2 ! a ! b" if ab: "a < ?n" "b < ?n" for a b
      unfolding R2 using dist suf ab by (intro prefix_nonneg) auto
    have nn1: "0 \<le> ?R1 ! a ! b" if ab: "a < ?n" "b < ?n" for a b
    proof (cases "a = un \<and> b = vn")
      case False
      with add_cell_nth[OF sq _ _ ab, of un vn "- d"] un vn len now ab show ?thesis by auto
    next
      case True
      from dist suf have nin: "vn \<notin> set pre" and dpre: "distinct pre" by auto
      from rng have r: "\<forall>c \<in> set pre. c < ?n \<and> nat (p ! c) < ?n" by simp
      from delta_lower[OF dpre, of vn p un] nin have "0 \<le> delta p pre un vn" by simp
      with pf(2) have "0 \<le> d * delta p pre un vn" by simp
      moreover from le suf pv have "d \<le> R0 ! un ! vn" by simp
      moreover have "R ! un ! vn = R0 ! un ! vn + d * delta p pre un vn"
        unfolding R using apply_path_nth[OF sq0 r, of un vn d] un vn len by simp
      ultimately have "0 \<le> R ! un ! vn - d" by simp
      with True add_cell_nth[OF sq _ _ ab, of un vn "- d"] un vn len show ?thesis by simp
    qed
    have sq2: "square ?n ?R2" using sq1 by (rule square_add_cell)
    from g i1 i2 nn1 nn2 sq1 sq2 show ?thesis by blast
  qed
  from sq0 R have "square ?n R" by (simp add: square_apply_path)
  with now next_step show ?thesis by blast
qed


definition non_negative :: "int list list \<Rightarrow> bool" where
  "non_negative t \<longleftrightarrow> (\<forall>row \<in> set t. \<forall>c \<in> set row. 0 \<le> c)"

lemma non_negative_square:
  assumes "square n t"
  shows "non_negative t \<longleftrightarrow> (\<forall>a < n. \<forall>b < n. 0 \<le> t ! a ! b)"
proof
  assume nn: "non_negative t"
  show "\<forall>a < n. \<forall>b < n. 0 \<le> t ! a ! b"
  proof (intro allI impI)
    fix a b assume "a < n" "b < n"
    with assms have "t ! a \<in> set t" "t ! a ! b \<in> set (t ! a)" by (auto simp: square_def)
    with nn show "0 \<le> t ! a ! b" unfolding non_negative_def by blast
  qed
next
  assume cells: "\<forall>a < n. \<forall>b < n. 0 \<le> t ! a ! b"
  show "non_negative t"
    unfolding non_negative_def
  proof (intro ballI)
    fix row c assume "row \<in> set t" "c \<in> set row"
    then obtain a b where "a < length t" "row = t ! a" "b < length row" "c = row ! b"
      by (auto simp: in_set_conv_nth)
    with assms cells show "0 \<le> c" by (auto simp: square_def)
  qed
qed

lemma in_walk_tables:
  assumes w: "in_walk cap s p pf v R"
  shows "non_negative R \<and>
     (v \<noteq> int s \<longrightarrow>
        (\<exists>u R1 R2. getitem p v = Inr u \<and> isub_at R u v pf = Inr R1 \<and>
           iadd_at R1 v u pf = Inr R2 \<and> non_negative R1 \<and> non_negative R2))"
proof -
  let ?n = "length cap"
  from in_walk_nonneg[OF w] have sq: "square ?n R"
    and now: "\<forall>a < ?n. \<forall>b < ?n. 0 \<le> R ! a ! b"
    and nxt: "v \<noteq> int s \<longrightarrow>
        (\<exists>u R1 R2. getitem p v = Inr u \<and> isub_at R u v pf = Inr R1 \<and>
           iadd_at R1 v u pf = Inr R2 \<and> square ?n R1 \<and> square ?n R2 \<and>
           (\<forall>a < ?n. \<forall>b < ?n. 0 \<le> R1 ! a ! b \<and> 0 \<le> R2 ! a ! b))" by blast+
  have "\<exists>u R1 R2. getitem p v = Inr u \<and> isub_at R u v pf = Inr R1 \<and>
           iadd_at R1 v u pf = Inr R2 \<and> non_negative R1 \<and> non_negative R2" if "v \<noteq> int s"
  proof -
    from nxt that obtain u R1 R2 where
      st: "getitem p v = Inr u" "isub_at R u v pf = Inr R1" "iadd_at R1 v u pf = Inr R2"
      and sq1: "square ?n R1" and sq2: "square ?n R2"
      and nn: "\<forall>a < ?n. \<forall>b < ?n. 0 \<le> R1 ! a ! b \<and> 0 \<le> R2 ! a ! b" by blast
    from nn non_negative_square[OF sq1] non_negative_square[OF sq2]
    have "non_negative R1" "non_negative R2" by simp_all
    with st show ?thesis by blast
  qed
  with now non_negative_square[OF sq] show ?thesis by blast
qed

section \<open>A source counted from the end\<close>

text \<open>
  A source in \<open>[- n, 0)\<close> passes \<^verbatim>\<open>parent[source] = source\<close>: Python reads it from the end.
  On a square table every index the call then uses is inside \<open>[- n, n)\<close>: the entries of
  \<^verbatim>\<open>parent\<close> are \<open>- 1\<close>, the source, or a node taken from the queue.  So nothing raises.
\<close>

definition in_range :: "nat \<Rightarrow> int \<Rightarrow> bool" where
  "in_range n i \<longleftrightarrow> - int n \<le> i \<and> i < int n"

definition parent_ok :: "nat \<Rightarrow> int list \<Rightarrow> bool" where
  "parent_ok n p \<longleftrightarrow> length p = n \<and> (\<forall>x \<in> set p. in_range n x)"

lemma py_index_in_range: "in_range n i \<Longrightarrow> \<exists>k < n. py_index n i = Some k"
  by (auto simp: in_range_def py_index_def)

lemma getitem_in_range:
  "in_range (length xs) i \<Longrightarrow> \<exists>x \<in> set xs. getitem xs i = Inr x"
  using py_index_in_range[of "length xs" i] by (auto simp: getitem_def)

lemma getitem2_in_range:
  assumes "square n R" "in_range n u" "in_range n v"
  shows "\<exists>x. getitem2 R u v = Inr x"
proof -
  from assms(1,2) getitem_in_range[of R u] obtain row where
    "row \<in> set R" "getitem R u = Inr row" by (auto simp: square_def)
  moreover from this assms(1) have "length row = n" by (simp add: square_def)
  ultimately show ?thesis
    using getitem_in_range[of row v] assms(3) by (auto simp: getitem2_def)
qed

lemma setitem2_in_range:
  assumes "square n R" "in_range n u" "in_range n v"
  shows "\<exists>R'. setitem2 R u v x = Inr R' \<and> square n R'"
proof -
  from assms(1,2) py_index_in_range[of n u] obtain k where
    k: "k < n" "py_index (length R) u = Some k" by (auto simp: square_def)
  with assms(1) have row: "length (R ! k) = n" by (simp add: square_def)
  with assms(3) py_index_in_range[of n v] obtain j where
    j: "j < n" "py_index (length (R ! k)) v = Some j" by auto
  have "setitem2 R u v x = Inr (R[k := (R ! k)[j := x]])"
    using k j by (simp add: setitem2_def getitem_def setitem_def)
  moreover have "square n (R[k := (R ! k)[j := x]])"
    using square_add_cell[OF assms(1), of k j "x - R ! k ! j"] by (simp add: add_cell_def)
  ultimately show ?thesis by blast
qed

lemma isub_at_in_range:
  assumes "square n R" "in_range n u" "in_range n v"
  shows "\<exists>R'. isub_at R u v (PyInt d) = Inr R' \<and> square n R'"
proof -
  from getitem2_in_range[OF assms] obtain x where "getitem2 R u v = Inr x" by blast
  with setitem2_in_range[OF assms, of "x - d"] show ?thesis by (simp add: isub_at_def)
qed

lemma iadd_at_in_range:
  assumes "square n R" "in_range n u" "in_range n v"
  shows "\<exists>R'. iadd_at R u v (PyInt d) = Inr R' \<and> square n R'"
proof -
  from getitem2_in_range[OF assms] obtain x where "getitem2 R u v = Inr x" by blast
  with setitem2_in_range[OF assms, of "x + d"] show ?thesis by (simp add: iadd_at_def)
qed

lemma bfs_scan_in_range:
  assumes sq: "square n R" and u: "in_range n u"
  shows "parent_ok n p \<Longrightarrow> \<forall>x \<in> set q. in_range n x \<Longrightarrow> set vs \<subseteq> {..<n} \<Longrightarrow>
     \<exists>found p' q'. bfs_scan R t u vs p q = Inr (found, p', q') \<and> parent_ok n p' \<and>
        (\<forall>x \<in> set q'. in_range n x) \<and> (found \<longrightarrow> in_range n t)"
proof (induction vs arbitrary: p q)
  case Nil
  then show ?case by auto
next
  case (Cons v vs)
  from Cons.prems have v: "v < n" and vs: "set vs \<subseteq> {..<n}" and len: "length p = n"
    by (auto simp: parent_ok_def)
  from v have vr: "in_range n (int v)" by (simp add: in_range_def)
  from getitem2_in_range[OF sq u vr] obtain r where r: "getitem2 R u (int v) = Inr r" by blast
  show ?case
  proof (cases "p ! v = - 1 \<and> 0 < r")
    case False
    then have "bfs_scan R t u (v # vs) p q = bfs_scan R t u vs p q"
      using v len r by (auto simp: getitem_nat)
    with Cons.IH[OF Cons.prems(1,2) vs] show ?thesis by simp
  next
    case True
    let ?p = "p[v := u]" and ?q = "q @ [int v]"
    have p': "parent_ok n ?p"
      using Cons.prems(1) u set_update_subset_insert[of p v u] by (auto simp: parent_ok_def)
    have q': "\<forall>x \<in> set ?q. in_range n x" using Cons.prems(2) vr by simp
    show ?thesis
    proof (cases "int v = t")
      case t: True
      then have t': "t = int v" by simp
      have "bfs_scan R t u (v # vs) p q = Inr (True, ?p, ?q)"
        unfolding t' using True v len r by (simp add: getitem_nat setitem_nat)
      with p' q' vr t show ?thesis by auto
    next
      case False
      with True have "bfs_scan R t u (v # vs) p q = bfs_scan R t u vs ?p ?q"
        using v len r by (simp add: getitem_nat setitem_nat)
      with Cons.IH[OF p' q' vs] show ?thesis by simp
    qed
  qed
qed

lemma bfs_loop_in_range:
  "square n R \<Longrightarrow> parent_ok n p \<Longrightarrow> \<forall>x \<in> set q. in_range n x \<Longrightarrow>
     \<exists>found p'. bfs_loop n R t p q = Inr (found, p') \<and> parent_ok n p' \<and>
        (found \<longrightarrow> in_range n t)"
proof (induction n R t p q rule: bfs_loop.induct)
  case (1 n residual sink parent)
  then show ?case by auto
next
  case (2 n residual sink parent u queue)
  from "2.prems" have u: "in_range n u" and q: "\<forall>x \<in> set queue. in_range n x" by auto
  have all: "set [0..<n] \<subseteq> {..<n}" by auto
  from bfs_scan_in_range[OF "2.prems"(1) u "2.prems"(2) q all, of sink]
  obtain found p' q' where
    scan: "bfs_scan residual sink u [0..<n] parent queue = Inr (found, p', q')"
    and p': "parent_ok n p'" and q': "\<forall>x \<in> set q'. in_range n x"
    and fnd: "found \<longrightarrow> in_range n sink" by blast
  show ?case
  proof (cases found)
    case True
    with scan p' fnd show ?thesis by auto
  next
    case False
    from "2.IH"[OF _ _ _ _ "2.prems"(1) p' q'] scan False show ?thesis by auto
  qed
qed

lemma bfs_in_range:
  assumes sq: "square n R" and s: "in_range n s"
  shows "\<exists>found p. bfs n R s t = Inr (found, p) \<and> parent_ok n p \<and> (found \<longrightarrow> in_range n t)"
proof -
  from s have n: "0 < n" by (auto simp: in_range_def)
  from py_index_in_range[OF s] obtain k where
    k: "k < n" "py_index (length (replicate n (- 1 :: int))) s = Some k" by auto
  let ?p = "(replicate n (- 1))[k := s]"
  have set: "setitem (replicate n (- 1)) s s = Inr ?p" using k by (simp add: setitem_def)
  have "in_range n (- 1)" using n by (simp add: in_range_def)
  with s have p: "parent_ok n ?p"
    using set_update_subset_insert[of "replicate n (- 1)" k s]
    by (auto simp: parent_ok_def)
  from bfs_loop_in_range[OF sq p, of "[s]" t] s obtain found p' where
    "bfs_loop n R t ?p [s] = Inr (found, p')" "parent_ok n p'" "found \<longrightarrow> in_range n t"
    by auto
  with set show ?thesis by (simp add: bfs_def del: bfs_loop.simps)
qed


lemma find_bottleneck_in_range:
  assumes "find_bottleneck R p s v a = Some y"
  shows "square n R \<longrightarrow> parent_ok n p \<longrightarrow> in_range n v \<longrightarrow> (\<exists>pf. y = Inr pf)"
proof (rule find_bottleneck.raw_induct[OF _ assms], goal_cases)
  case (1 f R p s v a y)
  show ?case
  proof (intro impI)
    assume sq: "square n R" and p: "parent_ok n p" and v: "in_range n v"
    show "\<exists>pf. y = Inr pf"
    proof (cases "v = s")
      case True
      with 1(2) show ?thesis by auto
    next
      case False
      from p v getitem_in_range[of p v] obtain u where
        u: "getitem p v = Inr u" "in_range n u" by (auto simp: parent_ok_def)
      from getitem2_in_range[OF sq u(2) v] obtain r where r: "getitem2 R u v = Inr r" by blast
      from 1(2) False u r have "f R p s u (py_min a r) = Some y" by simp
      from 1(1)[OF this] sq p u(2) show ?thesis by blast
    qed
  qed
qed

lemma update_residual_in_range:
  assumes "update_residual p s pf v R = Some y"
  shows "square n R \<longrightarrow> parent_ok n p \<longrightarrow> in_range n v \<longrightarrow> (\<exists>d. pf = PyInt d) \<longrightarrow>
     (\<exists>R'. y = Inr R' \<and> square n R')"
proof (rule update_residual.raw_induct[OF _ assms], goal_cases)
  case (1 f p s pf v R y)
  show ?case
  proof (intro impI)
    assume sq: "square n R" and p: "parent_ok n p" and v: "in_range n v"
      and pf: "\<exists>d. pf = PyInt d"
    then obtain d where d: "pf = PyInt d" by blast
    show "\<exists>R'. y = Inr R' \<and> square n R'"
    proof (cases "v = s")
      case True
      with 1(2) sq show ?thesis by auto
    next
      case False
      from p v getitem_in_range[of p v] obtain u where
        u: "getitem p v = Inr u" "in_range n u" by (auto simp: parent_ok_def)
      from isub_at_in_range[OF sq u(2) v, of d] obtain R1 where
        R1: "isub_at R u v (PyInt d) = Inr R1" "square n R1" by blast
      from iadd_at_in_range[OF R1(2) v u(2), of d] obtain R2 where
        R2: "iadd_at R1 v u (PyInt d) = Inr R2" "square n R2" by blast
      from 1(2) False u R1 R2 d have "f p s pf u R2 = Some y" by simp
      from 1(1)[OF this] R2(2) p u(2) pf show ?thesis by blast
    qed
  qed
qed

lemma augment_in_range:
  assumes sq: "square n R" and p: "parent_ok n p" and t: "in_range n t"
    and a: "augment R p s t = Some y"
  shows "\<exists>R' pf. y = Inr (R', pf) \<and> square n R'"
proof (cases "find_bottleneck R p s t PyInf")
  case None
  with a show ?thesis by (simp add: augment_def)
next
  case (Some b)
  from find_bottleneck_in_range[OF Some, of n] sq p t obtain pf where b: "b = Inr pf" by blast
  show ?thesis
  proof (cases pf)
    case (PyInt d)
    show ?thesis
    proof (cases "update_residual p s pf t R")
      case None
      with a Some b show ?thesis by (simp add: augment_def)
    next
      case (Some r)
      from update_residual_in_range[OF Some, of n] sq p t PyInt obtain R' where
        "r = Inr R'" "square n R'" by blast
      with a \<open>find_bottleneck R p s t PyInf = Some b\<close> b Some show ?thesis
        by (auto simp: augment_def)
    qed
  next
    case PyInf
    from find_bottleneck_result[OF Some] b PyInf have "t = s" by simp
    then have "update_residual p s pf t R = Some (Inr R)"
      by (subst update_residual.simps) simp
    with a Some b sq show ?thesis by (auto simp: augment_def)
  qed
qed

lemma augment_loop_in_range:
  assumes "augment_loop m s t R mf = Some y"
  shows "m = n \<longrightarrow> square n R \<longrightarrow> in_range n s \<longrightarrow> (\<forall>e. y \<noteq> Inl e)"
proof (rule augment_loop.raw_induct[OF _ assms], goal_cases)
  case (1 f m s t R mf y)
  show ?case
  proof (intro impI)
    assume m: "m = n" and sq: "square n R" and s: "in_range n s"
    from bfs_in_range[OF sq s, of t] obtain found p where
      b: "bfs n R s t = Inr (found, p)" and p: "parent_ok n p"
      and fnd: "found \<longrightarrow> in_range n t" by blast
    show "\<forall>e. y \<noteq> Inl e"
    proof (cases found)
      case False
      with 1(2) b m show ?thesis by auto
    next
      case True
      with fnd have t: "in_range n t" by simp
      show ?thesis
      proof (cases "augment R p s t")
        case None
        with 1(2) b m True show ?thesis by simp
      next
        case (Some r)
        from augment_in_range[OF sq p t Some] obtain R' pf where
          r: "r = Inr (R', pf)" and sq': "square n R'" by blast
        from 1(2) b m True Some r have "f m s t R' (py_add mf pf) = Some y" by simp
        from 1(1)[OF this] m sq' s show ?thesis by blast
      qed
    qed
  qed
qed

lemma edmonds_karp_in_range:
  assumes "square (length capacity) capacity" "in_range (length capacity) source"
  shows "edmonds_karp capacity source sink \<noteq> Some (Inl e)"
proof
  assume "edmonds_karp capacity source sink = Some (Inl e)"
  then have "augment_loop (length capacity) source sink capacity (PyInt 0) = Some (Inl e)"
    by (simp add: edmonds_karp_def)
  from augment_loop_in_range[OF this, of "length capacity"] assms show False by blast
qed

text \<open>
  With the source \<open>- 1\<close> the search marks the last entry of \<^verbatim>\<open>parent\<close> with \<open>- 1\<close>, the value
  that means unvisited.  On this table it then finds the sink at once, both walks stop after
  one step at \<open>v = - 1\<close>, and the table they leave is the one they were given: the main loop
  repeats for ever.
\<close>

definition self_loop :: "int list list" where
  "self_loop = [[0, 0], [0, 7]]"

lemma augment_loop_self_loop:
  assumes "augment_loop m s t R mf = Some y"
  shows "m = 2 \<longrightarrow> s = - 1 \<longrightarrow> t = 1 \<longrightarrow> R = self_loop \<longrightarrow> False"
proof (rule augment_loop.raw_induct[OF _ assms], goal_cases)
  case (1 f m s t R mf y)
  have b: "bfs 2 self_loop (- 1) 1 = Inr (True, [- 1, - 1])"
    unfolding self_loop_def by code_simp
  have a: "augment self_loop [- 1, - 1] (- 1) 1 = Some (Inr (self_loop, PyInt 7))"
    unfolding self_loop_def by code_simp
  show ?case
  proof (intro impI)
    assume h: "m = 2" "s = - 1" "t = 1" "R = self_loop"
    with 1(2) b a have "f 2 (- 1) 1 self_loop (py_add mf (PyInt 7)) = Some y" by simp
    from 1(1)[OF this] show False by simp
  qed
qed

lemma edmonds_karp_self_loop: "edmonds_karp self_loop (- 1) 1 = None"
proof (cases "edmonds_karp self_loop (- 1) 1")
  case (Some y)
  moreover have "length self_loop = 2" by (simp add: self_loop_def)
  ultimately have "augment_loop 2 (- 1) 1 self_loop (PyInt 0) = Some y"
    by (simp add: edmonds_karp_def)
  from augment_loop_self_loop[OF this] show ?thesis by simp
qed simp

section \<open>Claims\<close>

text \<open>
  C1 (as stated): on the capacity table of scenario 1, with source \<open>s = 0\<close> and sink
  \<open>t = 4\<close>, the solver returns the maximum flow value 23.  The solver returns a value
  there and it is not 23.
\<close>

theorem C1_scenario1_not_23:
  "max_flow_value (edmonds_karp scenario1 0 4) \<noteq> Some (PyInt 23)"
  by code_simp

text \<open>
  C1 (amended): on the capacity table of scenario 1, with source \<open>s = 0\<close> and sink
  \<open>t = 4\<close>, the solver returns the maximum flow value 26, with the residual table shown.
\<close>

theorem C1_scenario1_max_flow_26:
  "edmonds_karp scenario1 0 4 =
     Some (Inr ([[0, 3, 0, 0, 0],
                 [13, 0, 9, 0, 0],
                 [13, 5, 0, 0, 0],
                 [0, 12, 9, 0, 8],
                 [0, 0, 14, 12, 0]], PyInt 26))"
  by code_simp

text \<open>
  C2 (as stated): the solver fails, and returns nothing, when source and sink are equal,
  when one of them is outside \<open>[0, n)\<close>, or when a capacity is negative.  It returns a table
  and a flow value in each of these cases.
\<close>

theorem C2_returns_on_invalid_input:
  "edmonds_karp two_nodes 0 0 = Some (Inr (two_nodes, PyInt 0)) \<and>
   edmonds_karp two_nodes 0 2 = Some (Inr (two_nodes, PyInt 0)) \<and>
   edmonds_karp two_nodes 0 (- 1) = Some (Inr (two_nodes, PyInt 0)) \<and>
   edmonds_karp two_nodes_negative 0 1 = Some (Inr ([[0, 0], [2, 0]], PyInt 5))"
  by (intro conjI) code_simp+

text \<open>
  C2 (amended): the solver validates nothing.  On a square table with integer entries of
  any sign and a source in \<open>[0, n)\<close> it returns a table and an integer flow value for every
  sink; when the sink equals the source or lies outside \<open>[0, n)\<close>, what it returns is the
  capacity table unchanged and the flow value 0.  A source outside \<open>[- n, n)\<close> raises
  \<^verbatim>\<open>IndexError\<close> in the first search, and nothing is returned.  A source in \<open>[- n, 0)\<close> is
  not rejected either: it is read as an index from the end, and on a square table the call
  raises nothing; it returns a table and a flow value, as for the source \<open>- 2\<close> and the sink
  \<open>1\<close> on the two-node table, or it never returns, as for the source \<open>- 1\<close> and the sink \<open>1\<close>
  on the table \<open>[[0, 0], [0, 7]]\<close>.
\<close>

theorem C2_no_validation:
  "(square (length capacity) capacity \<and> 0 \<le> source \<and> source < int (length capacity) \<longrightarrow>
      (\<exists>residual max_flow.
         edmonds_karp capacity source sink = Some (Inr (residual, PyInt max_flow))) \<and>
      (sink = source \<or> sink < 0 \<or> int (length capacity) \<le> sink \<longrightarrow>
         edmonds_karp capacity source sink = Some (Inr (capacity, PyInt 0)))) \<and>
   (source < - int (length capacity) \<or> int (length capacity) \<le> source \<longrightarrow>
      edmonds_karp capacity source sink = Some (Inl IndexError)) \<and>
   (square (length capacity) capacity \<and> - int (length capacity) \<le> source \<and> source < 0 \<longrightarrow>
      edmonds_karp capacity source sink = None \<or>
      (\<exists>residual max_flow.
         edmonds_karp capacity source sink = Some (Inr (residual, max_flow)))) \<and>
   edmonds_karp two_nodes (- 2) 1 = Some (Inr ([[0, 0], [8, 0]], PyInt 5)) \<and>
   edmonds_karp self_loop (- 1) 1 = None"
proof (intro conjI impI)
  let ?n = "length capacity"
  assume a: "square ?n capacity \<and> 0 \<le> source \<and> source < int ?n"
  then have sq: "square ?n capacity" and s: "nat source < ?n" "source = int (nat source)"
    by auto
  from edmonds_karp_returns[OF sq s(1), of sink] s(2) obtain R mf f where
    r: "edmonds_karp capacity source sink = Some (Inr (R, mf))"
    and sol: "solving capacity (int (nat source)) sink R mf f" by auto
  from solving_flow[OF sq s(1) sol] obtain m where "mf = PyInt m" by blast
  with r show "\<exists>residual max_flow.
      edmonds_karp capacity source sink = Some (Inr (residual, PyInt max_flow))" by blast
next
  let ?n = "length capacity"
  assume a: "square ?n capacity \<and> 0 \<le> source \<and> source < int ?n"
    and b: "sink = source \<or> sink < 0 \<or> int ?n \<le> sink"
  from a have sq: "square ?n capacity" and s: "nat source < ?n" "source = int (nat source)"
    by auto
  from bfs_result[OF sq s(1), of sink] obtain found p where
    bfs: "bfs ?n capacity (int (nat source)) sink = Inr (found, p)"
    and fnd: "found \<longrightarrow> (\<exists>tn. sink = int tn \<and> tn < ?n \<and> tn \<noteq> nat source)" by blast
  from fnd b s(2) have "\<not> found" by auto
  with bfs s(2) have "bfs ?n capacity source sink = Inr (False, p)" by simp
  then show "edmonds_karp capacity source sink = Some (Inr (capacity, PyInt 0))"
    unfolding edmonds_karp_def by (subst augment_loop.simps) simp
next
  let ?n = "length capacity"
  assume "source < - int ?n \<or> int ?n \<le> source"
  then have "py_index ?n source = None" by (auto simp: py_index_def)
  then have "bfs ?n capacity source sink = Inl IndexError"
    by (simp add: bfs_def setitem_def)
  then show "edmonds_karp capacity source sink = Some (Inl IndexError)"
    unfolding edmonds_karp_def by (subst augment_loop.simps) simp
next
  let ?n = "length capacity"
  assume a: "square ?n capacity \<and> - int ?n \<le> source \<and> source < 0"
  then have sq: "square ?n capacity" and s: "in_range ?n source"
    by (simp_all add: in_range_def)
  show "edmonds_karp capacity source sink = None \<or>
      (\<exists>residual max_flow. edmonds_karp capacity source sink = Some (Inr (residual, max_flow)))"
  proof (cases "edmonds_karp capacity source sink")
    case None
    then show ?thesis by simp
  next
    case (Some y)
    with edmonds_karp_in_range[OF sq s, of sink] have "\<forall>e. y \<noteq> Inl e" by auto
    then obtain R mf where "y = Inr (R, mf)" by (cases y) auto
    with Some show ?thesis by simp
  qed
next
  show "edmonds_karp two_nodes (- 2) 1 = Some (Inr ([[0, 0], [8, 0]], PyInt 5))"
    unfolding two_nodes_def by code_simp
next
  show "edmonds_karp self_loop (- 1) 1 = None" by (rule edmonds_karp_self_loop)
qed

text \<open>
  C2 (amended) at the two-node table with a negative entry, for the sources \<open>0\<close>, \<open>2\<close> and
  \<open>- 2\<close>.
\<close>

theorem C2_witness:
  "square (length two_nodes_negative) two_nodes_negative \<and>
   (\<exists>residual max_flow.
      edmonds_karp two_nodes_negative 0 0 = Some (Inr (residual, PyInt max_flow))) \<and>
   edmonds_karp two_nodes_negative 0 0 = Some (Inr (two_nodes_negative, PyInt 0)) \<and>
   edmonds_karp two_nodes_negative 2 0 = Some (Inl IndexError) \<and>
   - int (length two_nodes_negative) \<le> - 2 \<and>
   (edmonds_karp two_nodes_negative (- 2) 1 = None \<or>
    (\<exists>residual max_flow.
       edmonds_karp two_nodes_negative (- 2) 1 = Some (Inr (residual, max_flow))))"
proof -
  have sq: "square (length two_nodes_negative) two_nodes_negative"
    by (simp add: square_def two_nodes_negative_def)
  have l: "(0::int) < int (length two_nodes_negative)" "int (length two_nodes_negative) \<le> 2"
    "- int (length two_nodes_negative) \<le> - 2"
    by (simp_all add: two_nodes_negative_def)
  from C2_no_validation[of two_nodes_negative 0 0] sq l(1)
  have 1: "(\<exists>residual max_flow.
      edmonds_karp two_nodes_negative 0 0 = Some (Inr (residual, PyInt max_flow)))"
    and 2: "edmonds_karp two_nodes_negative 0 0 = Some (Inr (two_nodes_negative, PyInt 0))"
    by simp_all
  from C2_no_validation[of two_nodes_negative 2 0] l(2)
  have 3: "edmonds_karp two_nodes_negative 2 0 = Some (Inl IndexError)" by simp
  from C2_no_validation[of two_nodes_negative "- 2" 1] sq l(3)
  have 4: "edmonds_karp two_nodes_negative (- 2) 1 = None \<or>
    (\<exists>residual max_flow.
       edmonds_karp two_nodes_negative (- 2) 1 = Some (Inr (residual, max_flow)))" by simp
  from sq 1 2 3 l(3) 4 show ?thesis by blast
qed

text \<open>
  C3 (as stated): on every valid network the realized flow \<open>capacity[u][v] - residual[u][v]\<close>
  is never negative.  On the two-node network, 5 units go from node 0 to node 1; the
  residual of the opposite edge \<open>1 \<rightarrow> 0\<close> (capacity 3) becomes 8, and the unclamped derivation
  of \<^verbatim>\<open>codeFinal.py\<close> gives it the flow \<open>- 5\<close>.
\<close>

theorem C3_unclamped_flow_negative:
  "valid_network two_nodes 0 1 \<and>
   edmonds_karp two_nodes 0 1 = Some (Inr ([[0, 0], [8, 0]], PyInt 5)) \<and>
   compute_forward_flow_Final two_nodes [[0, 0], [8, 0]] = Inr [[0, 5], [- 5, 0]] \<and>
   0 < two_nodes ! 1 ! 0 \<and> [[0, 5], [- 5, 0]] ! 1 ! 0 < (0::int)"
  by (intro conjI valid_two_nodes) code_simp+

text \<open>
  C3 (amended): on every valid network the solver returns a table, both derivations
  succeed on it, and for every pair \<open>(u, v)\<close> with \<open>capacity[u][v] > 0\<close> the realized flow
  \<open>capacity[u][v] - residual[u][v]\<close> of \<^verbatim>\<open>codeFinal.py\<close> lies between \<open>- capacity[v][u]\<close> and
  \<open>capacity[u][v]\<close>; it is non-negative when there is no opposite edge
  (\<open>capacity[v][u] = 0\<close>).  The clamped derivation of \<^verbatim>\<open>codeNew.py\<close> is its maximum with 0
  and lies between 0 and \<open>capacity[u][v]\<close>.
\<close>

theorem C3_realized_flow_bounds:
  assumes valid: "valid_network capacity source sink"
  shows "\<exists>residual max_flow flow clamped.
     edmonds_karp capacity source sink = Some (Inr (residual, max_flow)) \<and>
     compute_forward_flow_Final capacity residual = Inr flow \<and>
     compute_forward_flow_New capacity residual = Inr clamped \<and>
     (\<forall>u < length capacity. \<forall>v < length capacity. 0 < capacity ! u ! v \<longrightarrow>
        flow ! u ! v = capacity ! u ! v - residual ! u ! v \<and>
        - (capacity ! v ! u) \<le> flow ! u ! v \<and> flow ! u ! v \<le> capacity ! u ! v \<and>
        (capacity ! v ! u = 0 \<longrightarrow> 0 \<le> flow ! u ! v) \<and>
        clamped ! u ! v = max 0 (flow ! u ! v) \<and>
        0 \<le> clamped ! u ! v \<and> clamped ! u ! v \<le> capacity ! u ! v)"
proof -
  let ?n = "length capacity"
  note v = valid_networkD[OF valid]
  from final_state[OF valid] obtain R mf f where
    r: "edmonds_karp capacity source sink = Some (Inr (R, mf))" and sq: "square ?n R"
    and nn: "\<forall>a < ?n. \<forall>b < ?n. 0 \<le> R ! a ! b"
    and fl: "\<forall>a < ?n. \<forall>b < ?n. R ! a ! b + f a b = capacity ! a ! b"
    and anti: "\<forall>a b. f a b + f b a = 0" by blast
  from forward_flow_table[OF v(1) sq, of "\<lambda>c r. c - r"] obtain flow where
    fin: "compute_forward_flow_Final capacity R = Inr flow"
    and flow: "\<forall>a < ?n. \<forall>b < ?n. flow ! a ! b = flow_cell (\<lambda>c r. c - r) capacity R a b"
    by (auto simp: compute_forward_flow_Final_def)
  from forward_flow_table[OF v(1) sq, of "\<lambda>c r. max 0 (c - r)"] obtain clamped where
    new: "compute_forward_flow_New capacity R = Inr clamped"
    and cl: "\<forall>a < ?n. \<forall>b < ?n. clamped ! a ! b = flow_cell (\<lambda>c r. max 0 (c - r)) capacity R a b"
    by (auto simp: compute_forward_flow_New_def)
  have "flow ! u ! w = capacity ! u ! w - R ! u ! w \<and>
        - (capacity ! w ! u) \<le> flow ! u ! w \<and> flow ! u ! w \<le> capacity ! u ! w \<and>
        (capacity ! w ! u = 0 \<longrightarrow> 0 \<le> flow ! u ! w) \<and>
        clamped ! u ! w = max 0 (flow ! u ! w) \<and>
        0 \<le> clamped ! u ! w \<and> clamped ! u ! w \<le> capacity ! u ! w"
    if uw: "u < ?n" "w < ?n" and pos: "0 < capacity ! u ! w" for u w
  proof -
    from flow uw pos have 1: "flow ! u ! w = capacity ! u ! w - R ! u ! w"
      by (simp add: flow_cell_def)
    from cl uw pos have 2: "clamped ! u ! w = max 0 (capacity ! u ! w - R ! u ! w)"
      by (simp add: flow_cell_def)
    from nn uw have 3: "0 \<le> R ! u ! w" "0 \<le> R ! w ! u" by simp_all
    from fl uw anti have 4: "R ! u ! w + f u w = capacity ! u ! w"
      "R ! w ! u + f w u = capacity ! w ! u" "f u w + f w u = 0" by simp_all
    from 1 2 3 4 pos show ?thesis by auto
  qed
  with r fin new show ?thesis by blast
qed

text \<open>C3 (amended) at the two-node network and the pair \<open>(0, 1)\<close>.\<close>

theorem C3_witness:
  "valid_network two_nodes 0 1 \<and>
   (\<exists>residual max_flow flow clamped.
     edmonds_karp two_nodes 0 1 = Some (Inr (residual, max_flow)) \<and>
     compute_forward_flow_Final two_nodes residual = Inr flow \<and>
     compute_forward_flow_New two_nodes residual = Inr clamped \<and>
     flow ! 0 ! 1 = two_nodes ! 0 ! 1 - residual ! 0 ! 1 \<and>
     - (two_nodes ! 1 ! 0) \<le> flow ! 0 ! 1 \<and> flow ! 0 ! 1 \<le> two_nodes ! 0 ! 1 \<and>
     clamped ! 0 ! 1 = max 0 (flow ! 0 ! 1) \<and>
     0 \<le> clamped ! 0 ! 1 \<and> clamped ! 0 ! 1 \<le> two_nodes ! 0 ! 1)"
proof -
  from C3_realized_flow_bounds[OF valid_two_nodes] obtain R mf flow clamped where
    r: "edmonds_karp two_nodes 0 1 = Some (Inr (R, mf))"
    "compute_forward_flow_Final two_nodes R = Inr flow"
    "compute_forward_flow_New two_nodes R = Inr clamped"
    and b: "\<forall>u < length two_nodes. \<forall>v < length two_nodes. 0 < two_nodes ! u ! v \<longrightarrow>
        flow ! u ! v = two_nodes ! u ! v - R ! u ! v \<and>
        - (two_nodes ! v ! u) \<le> flow ! u ! v \<and> flow ! u ! v \<le> two_nodes ! u ! v \<and>
        (two_nodes ! v ! u = 0 \<longrightarrow> 0 \<le> flow ! u ! v) \<and>
        clamped ! u ! v = max 0 (flow ! u ! v) \<and>
        0 \<le> clamped ! u ! v \<and> clamped ! u ! v \<le> two_nodes ! u ! v"
    by blast
  have "(0::nat) < length two_nodes" "(1::nat) < length two_nodes" "0 < two_nodes ! 0 ! 1"
    by (simp_all add: two_nodes_def)
  with b have "flow ! 0 ! 1 = two_nodes ! 0 ! 1 - R ! 0 ! 1 \<and>
     - (two_nodes ! 1 ! 0) \<le> flow ! 0 ! 1 \<and> flow ! 0 ! 1 \<le> two_nodes ! 0 ! 1 \<and>
     clamped ! 0 ! 1 = max 0 (flow ! 0 ! 1) \<and>
     0 \<le> clamped ! 0 ! 1 \<and> clamped ! 0 ! 1 \<le> two_nodes ! 0 ! 1"
    by blast
  with r valid_two_nodes show ?thesis by blast
qed

text \<open>
  C4: on every valid network, with the realized flow derived from the returned residual
  table by \<^verbatim>\<open>compute_forward_flow\<close> of \<^verbatim>\<open>codeNew.py\<close>, every node \<open>w\<close> other than source and
  sink has the same total flow on the edges into it as on the edges out of it.
\<close>

theorem C4_flow_conservation:
  assumes valid: "valid_network capacity source sink"
  shows "\<exists>residual max_flow flow.
     edmonds_karp capacity source sink = Some (Inr (residual, max_flow)) \<and>
     compute_forward_flow_New capacity residual = Inr flow \<and>
     (\<forall>w < length capacity. w \<noteq> nat source \<longrightarrow> w \<noteq> nat sink \<longrightarrow>
        (\<Sum>u<length capacity. flow ! u ! w) = (\<Sum>v<length capacity. flow ! w ! v))"
proof -
  let ?n = "length capacity"
  note v = valid_networkD[OF valid]
  from final_state[OF valid] obtain R mf f where
    r: "edmonds_karp capacity source sink = Some (Inr (R, mf))" and sq: "square ?n R"
    and nn: "\<forall>a < ?n. \<forall>b < ?n. 0 \<le> R ! a ! b"
    and fl: "\<forall>a < ?n. \<forall>b < ?n. R ! a ! b + f a b = capacity ! a ! b"
    and anti: "\<forall>a b. f a b + f b a = 0"
    and rows: "\<forall>a < ?n. a \<noteq> nat source \<longrightarrow> a \<noteq> nat sink \<longrightarrow>
        row_sum ?n R a = row_sum ?n capacity a" by blast
  from forward_flow_table[OF v(1) sq, of "\<lambda>c r. max 0 (c - r)"] obtain flow where
    new: "compute_forward_flow_New capacity R = Inr flow"
    and cl: "\<forall>a < ?n. \<forall>b < ?n. flow ! a ! b = flow_cell (\<lambda>c r. max 0 (c - r)) capacity R a b"
    by (auto simp: compute_forward_flow_New_def)
  have cell: "flow ! a ! b = max 0 (f a b)" if ab: "a < ?n" "b < ?n" for a b
  proof -
    from fl ab have 1: "f a b = capacity ! a ! b - R ! a ! b" by (simp add: algebra_simps)
    from nn ab have 2: "0 \<le> R ! a ! b" by simp
    from v(2) ab have 3: "0 \<le> capacity ! a ! b" by simp
    from cl ab 1 2 3 show ?thesis by (auto simp: flow_cell_def)
  qed
  have "(\<Sum>u<?n. flow ! u ! w) = (\<Sum>b<?n. flow ! w ! b)"
    if w: "w < ?n" "w \<noteq> nat source" "w \<noteq> nat sink" for w
  proof -
    have "(\<Sum>b<?n. flow ! w ! b) - (\<Sum>u<?n. flow ! u ! w)
        = (\<Sum>b<?n. max 0 (f w b)) - (\<Sum>u<?n. max 0 (f u w))"
      using cell w(1) by simp
    also have "(\<Sum>u<?n. max 0 (f u w)) = (\<Sum>b<?n. max 0 (- f w b))"
    proof (intro sum.cong refl)
      fix x
      from anti have "f x w = - f w x" by (simp add: eq_neg_iff_add_eq_0)
      then show "max 0 (f x w) = max 0 (- f w x)" by simp
    qed
    also have "(\<Sum>b<?n. max 0 (f w b)) - (\<Sum>b<?n. max 0 (- f w b)) = (\<Sum>b<?n. f w b)"
      unfolding sum_subtractf[symmetric] by (intro sum.cong refl max_diff)
    also have "\<dots> = (\<Sum>b<?n. capacity ! w ! b - R ! w ! b)"
    proof (intro sum.cong refl)
      fix b assume "b \<in> {..<?n}"
      with fl w(1) show "f w b = capacity ! w ! b - R ! w ! b" by (simp add: algebra_simps)
    qed
    also have "\<dots> = row_sum ?n capacity w - row_sum ?n R w"
      by (simp add: row_sum_def sum_subtractf)
    also have "\<dots> = 0" using rows w by simp
    finally show ?thesis by simp
  qed
  with r new show ?thesis by blast
qed

text \<open>C4 at the three-node chain and its inner node 1.\<close>

theorem C4_witness:
  "valid_network chain3 0 2 \<and>
   (\<exists>residual max_flow flow.
     edmonds_karp chain3 0 2 = Some (Inr (residual, max_flow)) \<and>
     compute_forward_flow_New chain3 residual = Inr flow \<and>
     (\<Sum>u<length chain3. flow ! u ! 1) = (\<Sum>v<length chain3. flow ! 1 ! v))"
proof -
  from C4_flow_conservation[OF valid_chain3] obtain R mf flow where
    r: "edmonds_karp chain3 0 2 = Some (Inr (R, mf))"
    "compute_forward_flow_New chain3 R = Inr flow"
    and c: "\<forall>w < length chain3. w \<noteq> nat 0 \<longrightarrow> w \<noteq> nat 2 \<longrightarrow>
        (\<Sum>u<length chain3. flow ! u ! w) = (\<Sum>v<length chain3. flow ! w ! v)"
    by blast
  have "(1::nat) < length chain3" "(1::nat) \<noteq> nat 0" "(1::nat) \<noteq> nat 2"
    by (simp_all add: chain3_def)
  with c have "(\<Sum>u<length chain3. flow ! u ! 1) = (\<Sum>v<length chain3. flow ! 1 ! v)"
    by blast
  with r valid_chain3 show ?thesis by blast
qed

text \<open>
  C5: on every valid network, at every head of the loop (after each augmentation) and in
  the returned table, for every ordered pair \<open>(u, v)\<close>:
  \<open>residual[u][v] + pushed(u, v) = capacity[u][v]\<close>,
  \<open>residual[v][u] = capacity[v][u] + pushed(u, v)\<close>, and so
  \<open>residual[u][v] + residual[v][u] = capacity[u][v] + capacity[v][u]\<close>, where \<open>pushed(u, v)\<close>
  is the net flow the augmentations have put on \<open>u \<rightarrow> v\<close>.
\<close>

theorem C5_residual_encodes_pushed_flow:
  assumes valid: "valid_network capacity source sink"
  shows "(\<forall>residual max_flow pushed.
            solving capacity source sink residual max_flow pushed \<longrightarrow>
              (\<forall>u < length capacity. \<forall>v < length capacity.
                 residual ! u ! v + pushed u v = capacity ! u ! v \<and>
                 residual ! v ! u = capacity ! v ! u + pushed u v \<and>
                 residual ! u ! v + residual ! v ! u = capacity ! u ! v + capacity ! v ! u)) \<and>
         (\<exists>residual max_flow pushed.
            edmonds_karp capacity source sink = Some (Inr (residual, max_flow)) \<and>
            solving capacity source sink residual max_flow pushed)"
proof -
  note v = valid_networkD[OF valid]
  have "R ! u ! w + f u w = capacity ! u ! w \<and>
      R ! w ! u = capacity ! w ! u + f u w \<and>
      R ! u ! w + R ! w ! u = capacity ! u ! w + capacity ! w ! u"
    if "solving capacity source sink R mf f" and uw: "u < length capacity" "w < length capacity"
    for R mf f u w
  proof -
    from that v(3) have sol: "solving capacity (int (nat source)) sink R mf f" by simp
    from solving_flow[OF v(1,4) sol] uw
    have 1: "R ! u ! w + f u w = capacity ! u ! w" and 2: "R ! w ! u + f w u = capacity ! w ! u"
      and 3: "f u w + f w u = 0" by blast+
    from 1 2 3 show ?thesis by simp
  qed
  moreover from edmonds_karp_returns[OF v(1,4), of sink] v(3)
  have "\<exists>residual max_flow pushed.
      edmonds_karp capacity source sink = Some (Inr (residual, max_flow)) \<and>
      solving capacity source sink residual max_flow pushed" by auto
  ultimately show ?thesis by blast
qed

text \<open>
  C5 at the two-node network, for the loop-head state after its first augmentation and the
  pair \<open>(0, 1)\<close>: 5 units have been pushed on \<open>0 \<rightarrow> 1\<close>, the residual table is
  \<open>[[0, 0], [8, 0]]\<close>.
\<close>

theorem C5_witness:
  "valid_network two_nodes 0 1 \<and>
   solving two_nodes 0 1 [[0, 0], [8, 0]] (PyInt 5) (\<lambda>a b. - 5 * delta [0, 0] [1] a b) \<and>
   (0::nat) < length two_nodes \<and> (1::nat) < length two_nodes \<and>
   - 5 * delta [0, 0] [1] 0 1 = 5 \<and>
   [[0, 0], [8, 0]] ! 0 ! 1 + 5 = two_nodes ! 0 ! 1 \<and>
   [[0, 0], [8, 0]] ! 1 ! 0 = two_nodes ! 1 ! 0 + 5 \<and>
   [[0, 0], [8, 0]] ! 0 ! 1 + [[0, 0], [8, 0]] ! 1 ! 0 = two_nodes ! 0 ! 1 + two_nodes ! 1 ! 0 \<and>
   (\<exists>residual max_flow pushed.
      edmonds_karp two_nodes 0 1 = Some (Inr (residual, max_flow)) \<and>
      solving two_nodes 0 1 residual max_flow pushed)"
proof -
  have s0: "solving two_nodes 0 1 two_nodes (PyInt 0) (\<lambda>a b. 0)" by (rule solving.start)
  have b: "bfs (length two_nodes) two_nodes 0 1 = Inr (True, [0, 0])"
    unfolding two_nodes_def by code_simp
  have a: "augment two_nodes [0, 0] 0 1 = Some (Inr ([[0, 0], [8, 0]], PyInt 5))"
    unfolding two_nodes_def by code_simp
  have "parent_path [0, 0] 0 0 []" by (rule parent_path.at_source) simp
  from parent_path.via_parent[of 1 0 "[0, 0]" 0 "[]", OF _ _ _ _ this]
  have "parent_path [0, 0] 0 1 [1]" by simp
  then have p: "parent_path [0, 0] (nat 0) (nat 1) [1]" by simp
  from solving.step[OF s0 b a p]
  have s: "solving two_nodes 0 1 [[0, 0], [8, 0]] (PyInt 5) (\<lambda>a b. - 5 * delta [0, 0] [1] a b)"
    by simp
  have l: "(0::nat) < length two_nodes" "(1::nat) < length two_nodes"
    by (simp_all add: two_nodes_def)
  have d: "- 5 * delta [0, 0] [1] 0 1 = 5" by (simp add: cell_ind_def)
  from C5_residual_encodes_pushed_flow[OF valid_two_nodes] s l
  have "[[0, 0], [8, 0]] ! 0 ! 1 + - 5 * delta [0, 0] [1] 0 1 = two_nodes ! 0 ! 1"
    and "[[0, 0], [8, 0]] ! 1 ! 0 = two_nodes ! 1 ! 0 + - 5 * delta [0, 0] [1] 0 1"
    and "[[0, 0], [8, 0]] ! 0 ! 1 + [[0, 0], [8, 0]] ! 1 ! 0 =
         two_nodes ! 0 ! 1 + two_nodes ! 1 ! 0"
    by blast+
  with d have e: "[[0, 0], [8, 0]] ! 0 ! 1 + 5 = two_nodes ! 0 ! 1"
    "[[0, 0], [8, 0]] ! 1 ! 0 = two_nodes ! 1 ! 0 + 5"
    "[[0, 0], [8, 0]] ! 0 ! 1 + [[0, 0], [8, 0]] ! 1 ! 0 = two_nodes ! 0 ! 1 + two_nodes ! 1 ! 0"
    by simp_all
  from C5_residual_encodes_pushed_flow[OF valid_two_nodes]
  have f: "\<exists>residual max_flow pushed.
      edmonds_karp two_nodes 0 1 = Some (Inr (residual, max_flow)) \<and>
      solving two_nodes 0 1 residual max_flow pushed" by blast
  from valid_two_nodes s l d e f show ?thesis by blast
qed

text \<open>
  C6: on every valid network the main loop terminates: the call returns a table and an
  integer flow value.  At every head of the loop the search either finds no path, and the
  loop stops, or finds one whose bottleneck is strictly positive; \<^verbatim>\<open>max_flow\<close> then grows
  strictly and stays at most the total capacity leaving the source, so only finitely many
  increases are possible.
\<close>

theorem C6_main_loop_terminates:
  assumes valid: "valid_network capacity source sink"
  shows "(\<exists>residual max_flow.
            edmonds_karp capacity source sink = Some (Inr (residual, PyInt max_flow))) \<and>
         (\<forall>residual max_flow pushed.
            solving capacity source sink residual max_flow pushed \<longrightarrow>
              (\<exists>parent. bfs (length capacity) residual source sink = Inr (False, parent)) \<or>
              (\<exists>parent residual' path_flow m.
                 bfs (length capacity) residual source sink = Inr (True, parent) \<and>
                 augment residual parent source sink = Some (Inr (residual', PyInt path_flow)) \<and>
                 0 < path_flow \<and> max_flow = PyInt m \<and>
                 py_add max_flow (PyInt path_flow) = PyInt (m + path_flow) \<and>
                 m < m + path_flow \<and>
                 m + path_flow \<le> row_sum (length capacity) capacity (nat source)))"
proof (intro conjI allI impI)
  let ?n = "length capacity" and ?s = "nat source"
  note v = valid_networkD[OF valid]
  from edmonds_karp_returns[OF v(1,4), of sink] v(3) obtain R mf f where
    r: "edmonds_karp capacity source sink = Some (Inr (R, mf))"
    and sol: "solving capacity (int ?s) sink R mf f" by auto
  from solving_flow[OF v(1,4) sol] obtain m where "mf = PyInt m" by blast
  with r show "\<exists>residual max_flow.
      edmonds_karp capacity source sink = Some (Inr (residual, PyInt max_flow))" by blast
next
  fix R mf f
  let ?n = "length capacity" and ?s = "nat source"
  note v = valid_networkD[OF valid]
  assume "solving capacity source sink R mf f"
  with v(3) have sol: "solving capacity (int ?s) sink R mf f" by simp
  from solving_square[OF sol v(1,4)] have sq: "square ?n R" .
  from solving_flow[OF v(1,4) sol]
  have mf: "mf = PyInt (row_sum ?n capacity ?s - row_sum ?n R ?s)" by blast
  from bfs_result[OF sq v(4), of sink] obtain found p where
    bfs: "bfs ?n R (int ?s) sink = Inr (found, p)" by blast
  show "(\<exists>parent. bfs ?n R source sink = Inr (False, parent)) \<or>
        (\<exists>parent residual' path_flow m.
           bfs ?n R source sink = Inr (True, parent) \<and>
           augment R parent source sink = Some (Inr (residual', PyInt path_flow)) \<and>
           0 < path_flow \<and> mf = PyInt m \<and>
           py_add mf (PyInt path_flow) = PyInt (m + path_flow) \<and>
           m < m + path_flow \<and>
           m + path_flow \<le> row_sum ?n capacity ?s)"
  proof (cases found)
    case False
    with bfs v(3) show ?thesis by auto
  next
    case True
    with bfs have bfs': "bfs ?n R (int ?s) sink = Inr (True, p)" by simp
    from loop_body[OF sq v(4) bfs'] obtain tn cs pf where
      t: "sink = int tn" and path: "parent_path p ?s tn cs" and pf: "0 < pf"
      and aug: "augment R p (int ?s) sink = Some (Inr (apply_path R p cs pf, PyInt pf))"
      by blast
    let ?R' = "apply_path R p cs pf"
    from path t have path': "parent_path p (nat (int ?s)) (nat sink) cs" by (simp only: nat_int)
    have sol': "solving capacity (int ?s) sink ?R' (py_add mf (PyInt pf))
        (\<lambda>a b. f a b - pf * delta p cs a b)"
      by (rule solving.step[OF sol bfs' aug path'])
    from solving_flow[OF v(1,4) sol']
    have mf': "py_add mf (PyInt pf) = PyInt (row_sum ?n capacity ?s - row_sum ?n ?R' ?s)"
      by blast
    from solving_nonneg[OF v(1,4,2) sol'] v(4) have "0 \<le> row_sum ?n ?R' ?s"
      by (intro row_sum_nonneg) simp
    with mf mf' have "row_sum ?n capacity ?s - row_sum ?n R ?s + pf \<le> row_sum ?n capacity ?s"
      by simp
    with bfs' aug pf mf v(3) show ?thesis by auto
  qed
qed

text \<open>C6 at the two-node network, for its first loop-head state.\<close>

theorem C6_witness:
  "valid_network two_nodes 0 1 \<and>
   solving two_nodes 0 1 two_nodes (PyInt 0) (\<lambda>a b. 0) \<and>
   (\<exists>residual max_flow. edmonds_karp two_nodes 0 1 = Some (Inr (residual, PyInt max_flow))) \<and>
   ((\<exists>parent. bfs (length two_nodes) two_nodes 0 1 = Inr (False, parent)) \<or>
    (\<exists>parent residual' path_flow m.
       bfs (length two_nodes) two_nodes 0 1 = Inr (True, parent) \<and>
       augment two_nodes parent 0 1 = Some (Inr (residual', PyInt path_flow)) \<and>
       0 < path_flow \<and> PyInt 0 = PyInt m \<and>
       py_add (PyInt 0) (PyInt path_flow) = PyInt (m + path_flow) \<and>
       m < m + path_flow \<and>
       m + path_flow \<le> row_sum (length two_nodes) two_nodes (nat 0)))"
proof -
  have s: "solving two_nodes 0 1 two_nodes (PyInt 0) (\<lambda>a b. 0)" by (rule solving.start)
  from C6_main_loop_terminates[OF valid_two_nodes] s valid_two_nodes show ?thesis by blast
qed

text \<open>
  C7: for every store, capacity table, source and sink, when the call returns, or raises,
  every object that was in the store before the call is unchanged, so the capacity table
  reads entry for entry as before; the returned residual table and all its rows are
  objects that did not exist before the call.
\<close>

theorem C7_capacity_table_not_mutated:
  assumes "edmonds_karp_store st capacity source sink = Some (st', res)"
  shows "take (length st) st' = st \<and> table_at st' capacity = table_at st capacity \<and>
     (\<forall>residual max_flow. res = Inr (residual, max_flow) \<longrightarrow>
        length st \<le> residual \<and>
        (\<exists>rows. rows_at st' residual = Some rows \<and> (\<forall>a \<in> set rows. length st \<le> a)))"
  using assms by (rule edmonds_karp_store_frame)

text \<open>C7 at the two-node table, stored in three objects.\<close>

theorem C7_witness:
  "edmonds_karp_store two_nodes_store 2 0 1 =
     Some ([Ints [0, 5], Ints [3, 0], Refs [0, 1], Ints [0, 0], Ints [8, 0], Refs [3, 4]],
           Inr (5, PyInt 5)) \<and>
   take (length two_nodes_store)
     [Ints [0, 5], Ints [3, 0], Refs [0, 1], Ints [0, 0], Ints [8, 0], Refs [3, 4]]
     = two_nodes_store \<and>
   table_at [Ints [0, 5], Ints [3, 0], Refs [0, 1], Ints [0, 0], Ints [8, 0], Refs [3, 4]] 2
     = table_at two_nodes_store 2 \<and>
   length two_nodes_store \<le> 5 \<and>
   (\<exists>rows. rows_at [Ints [0, 5], Ints [3, 0], Refs [0, 1], Ints [0, 0], Ints [8, 0], Refs [3, 4]] 5
             = Some rows \<and> (\<forall>a \<in> set rows. length two_nodes_store \<le> a))"
proof -
  have run: "edmonds_karp_store two_nodes_store 2 0 1 =
     Some ([Ints [0, 5], Ints [3, 0], Refs [0, 1], Ints [0, 0], Ints [8, 0], Refs [3, 4]],
           Inr (5, PyInt 5))"
    by code_simp
  from C7_capacity_table_not_mutated[OF run] run show ?thesis by blast
qed

text \<open>
  C8: two calls on capacity tables with the same entries, with the same source and sink,
  have the same outcome, wherever the tables are stored and whatever else the stores hold:
  the same \<^verbatim>\<open>max_flow\<close> and residual tables with the same entries, or the same exception,
  or no return from either.
\<close>

theorem C8_deterministic:
  assumes "table_at st1 capacity1 = table_at st2 capacity2"
  shows "outcome (edmonds_karp_store st1 capacity1 source sink) =
         outcome (edmonds_karp_store st2 capacity2 source sink)"
proof (cases "table_at st1 capacity1")
  case None
  with assms have "table_at st2 capacity2 = None" by simp
  with None show ?thesis by (simp add: edmonds_karp_store_def outcome_def)
next
  case (Some t)
  with assms have "table_at st2 capacity2 = Some t" by simp
  from edmonds_karp_store_value[OF Some] edmonds_karp_store_value[OF this]
  show ?thesis by simp
qed

text \<open>C8 at the two stores of the two-node table.\<close>

theorem C8_witness:
  "table_at two_nodes_store 2 = table_at shifted_store 0 \<and>
   outcome (edmonds_karp_store two_nodes_store 2 0 1) =
   outcome (edmonds_karp_store shifted_store 0 0 1)"
proof -
  have t: "table_at two_nodes_store 2 = table_at shifted_store 0" by code_simp
  from C8_deterministic[OF t] t show ?thesis by blast
qed

text \<open>
  C9: the three definitions of \<^verbatim>\<open>edmonds_karp\<close>, in \<^verbatim>\<open>code.py\<close>, \<^verbatim>\<open>codeNew.py\<close> and
  \<^verbatim>\<open>codeFinal.py\<close>, agree on every capacity table, source and sink: the same pair, the
  same exception, or no return from any of them.
\<close>

theorem C9_three_definitions_agree:
  "edmonds_karp_New capacity source sink = edmonds_karp capacity source sink \<and>
   edmonds_karp_Final capacity source sink = edmonds_karp capacity source sink"
  by (simp add: edmonds_karp_New_def edmonds_karp_Final_def edmonds_karp_def
        augment_loop_New_eq augment_loop_Final_eq)

text \<open>
  C10: given a valid network (all capacities non-negative), every entry of the residual
  table is non-negative throughout solving: at every head of the main loop, at every
  step of the walk that updates the table, between the subtraction on \<open>residual[u][v]\<close> and
  the addition on \<open>residual[v][u]\<close> and after it, and in the returned table.
\<close>

theorem C10_residual_stays_nonnegative:
  assumes valid: "valid_network capacity source sink"
  shows "(\<forall>residual max_flow pushed.
            solving capacity source sink residual max_flow pushed \<longrightarrow> non_negative residual) \<and>
         (\<forall>parent path_flow v residual.
            updating capacity source sink parent path_flow v residual \<longrightarrow>
              non_negative residual \<and>
              (v \<noteq> source \<longrightarrow>
                 (\<exists>u residual1 residual2.
                    getitem parent v = Inr u \<and>
                    isub_at residual u v path_flow = Inr residual1 \<and>
                    iadd_at residual1 v u path_flow = Inr residual2 \<and>
                    non_negative residual1 \<and> non_negative residual2))) \<and>
         (\<exists>residual max_flow.
            edmonds_karp capacity source sink = Some (Inr (residual, max_flow)) \<and>
            non_negative residual)"
proof -
  note v = valid_networkD[OF valid]
  have heads: "non_negative R" if "solving capacity source sink R mf f" for R mf f
  proof -
    from that v(3) have sol: "solving capacity (int (nat source)) sink R mf f" by simp
    from solving_nonneg[OF v(1,4,2) sol] non_negative_square[OF solving_square[OF sol v(1,4)]]
    show ?thesis by simp
  qed
  have walks: "non_negative R \<and>
      (w \<noteq> source \<longrightarrow>
         (\<exists>u R1 R2. getitem p w = Inr u \<and> isub_at R u w pf = Inr R1 \<and>
            iadd_at R1 w u pf = Inr R2 \<and> non_negative R1 \<and> non_negative R2))"
    if "updating capacity source sink p pf w R" for p pf w R
  proof -
    from that v(3) have "updating capacity (int (nat source)) sink p pf w R" by simp
    from in_walk_tables[OF updating_in_walk[OF v(1,4,2) this]] v(3) show ?thesis by simp
  qed
  from edmonds_karp_returns[OF v(1,4), of sink] v(3) obtain R mf f where
    "edmonds_karp capacity source sink = Some (Inr (R, mf))"
    "solving capacity source sink R mf f" by auto
  with heads have "\<exists>residual max_flow.
      edmonds_karp capacity source sink = Some (Inr (residual, max_flow)) \<and>
      non_negative residual" by blast
  with heads walks show ?thesis by blast
qed

text \<open>
  C10 at the two-node network: its first loop-head state and the first step of the first
  updating walk.
\<close>

theorem C10_witness:
  "valid_network two_nodes 0 1 \<and>
   solving two_nodes 0 1 two_nodes (PyInt 0) (\<lambda>a b. 0) \<and> non_negative two_nodes \<and>
   updating two_nodes 0 1 [0, 0] (PyInt 5) 1 two_nodes \<and> (1::int) \<noteq> 0 \<and>
   (\<exists>u residual1 residual2.
      getitem [0, 0] 1 = Inr u \<and>
      isub_at two_nodes u 1 (PyInt 5) = Inr residual1 \<and>
      iadd_at residual1 1 u (PyInt 5) = Inr residual2 \<and>
      non_negative residual1 \<and> non_negative residual2) \<and>
   (\<exists>residual max_flow.
      edmonds_karp two_nodes 0 1 = Some (Inr (residual, max_flow)) \<and> non_negative residual)"
proof -
  have s: "solving two_nodes 0 1 two_nodes (PyInt 0) (\<lambda>a b. 0)" by (rule solving.start)
  have b: "bfs (length two_nodes) two_nodes 0 1 = Inr (True, [0, 0])" by code_simp
  have f: "find_bottleneck two_nodes [0, 0] 0 1 PyInf = Some (Inr (PyInt 5))" by code_simp
  have u: "updating two_nodes 0 1 [0, 0] (PyInt 5) 1 two_nodes"
    by (rule updating.enter[OF s b f])
  have ne: "(1::int) \<noteq> 0" by simp
  note c = C10_residual_stays_nonnegative[OF valid_two_nodes]
  from c s have 1: "non_negative two_nodes" by blast
  from c u ne have 2: "\<exists>u residual1 residual2.
      getitem [0, 0] 1 = Inr u \<and>
      isub_at two_nodes u 1 (PyInt 5) = Inr residual1 \<and>
      iadd_at residual1 1 u (PyInt 5) = Inr residual2 \<and>
      non_negative residual1 \<and> non_negative residual2" by blast
  from c have 3: "\<exists>residual max_flow.
      edmonds_karp two_nodes 0 1 = Some (Inr (residual, max_flow)) \<and> non_negative residual"
    by blast
  from valid_two_nodes s u ne 1 2 3 show ?thesis by blast
qed

end
